theory Spec2Isabelle
  imports Main "HOL-Library.Char_ord" "HOL-Library.List_Lexorder"
begin

section \<open>Python strings\<close>

text \<open>
  A Python \<open>str\<close> is modelled by \<open>string\<close>: a \<open>char\<close> stands for the code point of the
  same number, so the model covers the code points 0 to 255. Python compares strings
  lexicographically by code point; that is the order of \<open>List_Lexorder\<close> over
  \<open>Char_ord\<close>, written \<open><\<close> below.
\<close>

abbreviation LF :: char where "LF \<equiv> CHR 0x0A"
abbreviation CR :: char where "CR \<equiv> CHR 0x0D"

text \<open>\<open>str.isspace\<close> on one code point below 256.\<close>

definition py_isspace :: "char \<Rightarrow> bool" where
  "py_isspace c = (of_char c \<in> {9, 10, 11, 12, 13, 28, 29, 30, 31, 32, 133, 160 :: nat})"

text \<open>\<open>s.strip()\<close>: whitespace removed at both ends.\<close>

definition py_strip :: "string \<Rightarrow> string" where
  "py_strip s = rev (dropWhile py_isspace (rev (dropWhile py_isspace s)))"

text \<open>\<open>s.split(sep)\<close> for a separator of one character; the result is never empty.\<close>

fun split_on :: "char \<Rightarrow> string \<Rightarrow> string list" where
  "split_on sep [] = [[]]"
| "split_on sep (c # cs) =
     (if c = sep then [] # split_on sep cs
      else (case split_on sep cs of [] \<Rightarrow> [[c]] | p # ps \<Rightarrow> (c # p) # ps))"

text \<open>\<open>s.startswith(p)\<close>.\<close>

definition startswith :: "string \<Rightarrow> string \<Rightarrow> bool" where
  "startswith s p = (take (length p) s = p)"

text \<open>
  \<open>str.isdigit\<close> holds of a non-empty string of digit characters; below 256 these are
  the ASCII digits and the superscripts U+00B2, U+00B3 and U+00B9. \<open>int(s)\<close> accepts the
  ASCII digits only and raises \<open>ValueError\<close> on a superscript.
\<close>

definition is_ascii_digit :: "char \<Rightarrow> bool" where
  "is_ascii_digit c = (CHR ''0'' \<le> c \<and> c \<le> CHR ''9'')"

definition py_isdigit_char :: "char \<Rightarrow> bool" where
  "py_isdigit_char c = (is_ascii_digit c \<or> of_char c \<in> {178, 179, 185 :: nat})"

definition py_isdigit :: "string \<Rightarrow> bool" where
  "py_isdigit s = (s \<noteq> [] \<and> list_all py_isdigit_char s)"

definition digit_val :: "char \<Rightarrow> nat" where
  "digit_val c = of_char c - 48"

definition digits_val :: "string \<Rightarrow> nat" where
  "digits_val s = foldl (\<lambda>n c. 10 * n + digit_val c) 0 s"

datatype error = OSError | ValueError

definition py_int :: "string \<Rightarrow> error + nat" where
  "py_int s = (if s \<noteq> [] \<and> list_all is_ascii_digit s then Inr (digits_val s) else Inl ValueError)"

text \<open>\<open>str(n)\<close> for a non-negative integer.\<close>

fun py_str :: "nat \<Rightarrow> string" where
  "py_str n = (if n < 10 then [char_of (48 + n)] else py_str (n div 10) @ [char_of (48 + n mod 10)])"

declare py_str.simps [simp del]

section \<open>Text files\<close>

text \<open>
  A file opened for reading in text mode with the default \<open>newline=None\<close> translates
  \<open>\r\n\<close> and a lone \<open>\r\<close> to \<open>\n\<close>; \<open>readlines()\<close> then cuts after each \<open>\n\<close> and
  keeps it at the end of its line.
\<close>

fun universal_newlines :: "string \<Rightarrow> string" where
  "universal_newlines [] = []"
| "universal_newlines [c] = (if c = CR then [LF] else [c])"
| "universal_newlines (c # d # cs) =
     (if c = CR then
        (if d = LF then LF # universal_newlines cs else LF # universal_newlines (d # cs))
      else c # universal_newlines (d # cs))"

fun keepends :: "string \<Rightarrow> string list" where
  "keepends [] = []"
| "keepends (c # cs) =
     (if c = LF then [LF] # keepends cs
      else (case keepends cs of [] \<Rightarrow> [[c]] | l # ls \<Rightarrow> (c # l) # ls))"

definition readlines :: "string \<Rightarrow> string list" where
  "readlines content = keepends (universal_newlines content)"

section \<open>The ledger file\<close>

text \<open>
  The ledger \<open>OUTPUT_FILE\<close> is \<open>None\<close> when the file does not exist and \<open>Some content\<close>
  otherwise. The model takes the file to be readable and writable.
\<close>

type_synonym ledger_file = "string option"

text \<open>\<open>get_last_collected_date\<close>\<close>

definition get_last_collected_date :: "ledger_file \<Rightarrow> string option" where
  "get_last_collected_date file =
     (case file of
        None \<Rightarrow> None
      | Some content \<Rightarrow>
          (let lines = readlines content in
           if length lines > 1 then
             (let last_line = py_strip (last lines) in
              if last_line \<noteq> [] then Some (hd (split_on CHR '','' last_line)) else None)
           else None))"

section \<open>External commands\<close>

text \<open>
  \<open>subprocess.run\<close> either raises \<open>OSError\<close> (the executable cannot be started) or
  completes with a return code and the captured standard output. With \<open>text=True\<close>
  the output is the decoded text, otherwise the bytes.
\<close>

record completed =
  returncode :: int
  stdout :: string

type_synonym process = "error + completed"

text \<open>\<open>run_git\<close>: the stripped output and whether the return code is zero.\<close>

definition run_git :: "process \<Rightarrow> error + (string \<times> bool)" where
  "run_git p = (case p of Inl e \<Rightarrow> Inl e | Inr r \<Rightarrow> Inr (py_strip (stdout r), returncode r = 0))"

section \<open>Size metrics\<close>

record size_metric =
  code :: nat
  comment :: nat
  blank :: nat

definition zero_metric :: size_metric where
  "zero_metric = \<lparr>code = 0, comment = 0, blank = 0\<rparr>"

text \<open>One field of the aggregate row: \<open>int(p) if p.isdigit() else 0\<close>.\<close>

definition cloc_field :: "string \<Rightarrow> error + nat" where
  "cloc_field p = (if py_isdigit p then py_int p else Inr 0)"

text \<open>
  The loop of \<open>run_cloc\<close> over the reversed lines: \<open>None\<close> when the loop ends without
  returning, \<open>Some (Inl e)\<close> when a conversion raises, \<open>Some (Inr m)\<close> when it returns.
  The dictionary is built in the order blank, comment, code.
\<close>

fun cloc_scan :: "string list \<Rightarrow> (error + size_metric) option" where
  "cloc_scan [] = None"
| "cloc_scan (line # rest) =
     (if line \<noteq> [] \<and> \<not> startswith line ''files'' then
        (let parts = split_on CHR '','' line in
         if length parts \<ge> 5 then
           Some (case cloc_field (parts ! 2) of
                   Inl e \<Rightarrow> Inl e
                 | Inr b \<Rightarrow>
                     (case cloc_field (parts ! 3) of
                        Inl e \<Rightarrow> Inl e
                      | Inr cm \<Rightarrow>
                          (case cloc_field (parts ! 4) of
                             Inl e \<Rightarrow> Inl e
                           | Inr cd \<Rightarrow> Inr \<lparr>code = cd, comment = cm, blank = b\<rparr>)))
         else cloc_scan rest)
      else cloc_scan rest)"

text \<open>The body of the \<open>try\<close> block of \<open>run_cloc\<close>.\<close>

definition run_cloc_try :: "process \<Rightarrow> error + size_metric option" where
  "run_cloc_try p =
     (case p of
        Inl e \<Rightarrow> Inl e
      | Inr result \<Rightarrow>
          (case cloc_scan (rev (split_on LF (py_strip (stdout result)))) of
             None \<Rightarrow> Inr None
           | Some (Inl e) \<Rightarrow> Inl e
           | Some (Inr m) \<Rightarrow> Inr (Some m)))"

text \<open>
  \<open>run_cloc\<close>: \<open>dir_exists\<close> is \<open>directory.exists()\<close>, \<open>p\<close> the run of \<open>cloc\<close> on the
  directory. Every exception of the body is caught and passed over.
\<close>

definition run_cloc :: "bool \<Rightarrow> process \<Rightarrow> size_metric" where
  "run_cloc dir_exists p =
     (if \<not> dir_exists then zero_metric
      else (case run_cloc_try p of
              Inr (Some m) \<Rightarrow> m
            | Inr None \<Rightarrow> zero_metric
            | Inl e \<Rightarrow> zero_metric))"





section \<open>The history queries\<close>

text \<open>
  What one per-commit step observes. \<open>archive\<close> is \<open>git archive --format=tar commit -- path\<close>,
  \<open>mkdir_ok\<close> and \<open>tar_ok\<close> say that creating the subdirectory and starting \<open>tar\<close> do not
  raise, \<open>path_exists\<close> is the test of the unpacked path, \<open>cloc\<close> the run of the oracle on it.
\<close>

record subtree_env =
  archive :: process
  mkdir_ok :: bool
  tar_ok :: bool
  path_exists :: bool
  cloc :: process

text \<open>
  \<open>mkdtemp\<close> is the fresh location or \<open>OSError\<close>; \<open>rmtree_ok\<close> says whether
  \<open>shutil.rmtree(temp_dir, ignore_errors=True)\<close> removes the location (its errors are ignored).
\<close>

record snapshot_env =
  mkdtemp :: "error + string"
  frontend_env :: subtree_env
  backend_env :: subtree_env
  rmtree_ok :: bool

text \<open>
  The repository as the run sees it: the answer to each \<open>git\<close> query, and for each
  commit the environment of its step. \<open>git_log_until\<close> takes the value of \<open>--until\<close>.
\<close>

record world =
  git_log_dates :: process
  git_log_until :: "string \<Rightarrow> process"
  snapshot :: "string \<Rightarrow> snapshot_env"

text \<open>\<open>get_all_dates\<close>: the success flag of \<open>run_git\<close> is dropped.\<close>

definition get_all_dates :: "world \<Rightarrow> error + string list" where
  "get_all_dates w =
     (case run_git (git_log_dates w) of
        Inl e \<Rightarrow> Inl e
      | Inr (output, _) \<Rightarrow>
          (let dates = sorted_list_of_set (set (split_on LF output))
           in Inr (filter (\<lambda>d. d \<noteq> []) dates)))"

text \<open>\<open>get_commit_for_date\<close>\<close>

definition get_commit_for_date :: "world \<Rightarrow> string \<Rightarrow> error + string option" where
  "get_commit_for_date w date =
     (case run_git (git_log_until w (date @ '' 23:59:59'')) of
        Inl e \<Rightarrow> Inl e
      | Inr (output, _) \<Rightarrow> Inr (if output \<noteq> [] then Some output else None))"

section \<open>The per-commit step\<close>

record stats =
  frontend :: size_metric
  backend :: size_metric
  total_code :: nat

text \<open>
  The block that \<open>collect_stats_for_commit\<close> runs once for \<open>src\<close> and once for
  \<open>src-tauri/src\<close>: archive the path, and when the archive succeeds with some output,
  make the subdirectory, unpack, and measure the unpacked path if it exists. \<open>Inl\<close> is
  an exception leaving the block; the metric is the initial all-zero one unless
  \<open>run_cloc\<close> is reached.
\<close>

definition extract_subtree :: "subtree_env \<Rightarrow> error + size_metric" where
  "extract_subtree e =
     (case archive e of
        Inl x \<Rightarrow> Inl x
      | Inr result \<Rightarrow>
          (if returncode result = 0 \<and> stdout result \<noteq> [] then
             (if \<not> mkdir_ok e then Inl OSError
              else if \<not> tar_ok e then Inl OSError
              else if path_exists e then Inr (run_cloc (path_exists e) (cloc e))
              else Inr zero_metric)
           else Inr zero_metric))"

text \<open>The \<open>try\<close> block once the temporary location exists: \<open>None\<close> is the \<open>except\<close> branch.\<close>

definition collect_stats_try :: "snapshot_env \<Rightarrow> stats option" where
  "collect_stats_try e =
     (case extract_subtree (frontend_env e) of
        Inl x \<Rightarrow> None
      | Inr frontend_stats \<Rightarrow>
          (case extract_subtree (backend_env e) of
             Inl x \<Rightarrow> None
           | Inr backend_stats \<Rightarrow>
               Some \<lparr>frontend = frontend_stats, backend = backend_stats,
                     total_code = code frontend_stats + code backend_stats\<rparr>))"

text \<open>
  \<open>collect_stats_for_commit\<close> on the environment of the commit, with the set of
  temporary locations that exist before and after. When \<open>mkdtemp\<close> raises, \<open>temp_dir\<close>
  is still \<open>None\<close> and the \<open>finally\<close> block removes nothing.
\<close>

definition collect_stats_for_commit ::
    "snapshot_env \<Rightarrow> string set \<Rightarrow> stats option \<times> string set" where
  "collect_stats_for_commit e temps =
     (case mkdtemp e of
        Inl x \<Rightarrow> (None, temps)
      | Inr temp_dir \<Rightarrow>
          (let temps1 = insert temp_dir temps;
               result = collect_stats_try e;
               temps2 = (if temp_dir \<in> temps1 \<and> rmtree_ok e then temps1 - {temp_dir} else temps1)
           in (result, temps2)))"

section \<open>Writing rows\<close>

text \<open>
  \<open>csv.writer\<close> with the default dialect: a field that holds the delimiter, the quote
  character or a character of the line terminator is quoted, with its quotes doubled;
  fields are joined by commas and the row ends with \<open>\r\n\<close>. The ledger is opened with
  \<open>newline=""\<close>, so what is written is not translated.
\<close>

definition csv_field :: "string \<Rightarrow> string" where
  "csv_field s =
     (if \<exists>c \<in> set s. c = CHR '','' \<or> c = CHR 0x22 \<or> c = CR \<or> c = LF then
        CHR 0x22 # concat (map (\<lambda>c. if c = CHR 0x22 then [c, c] else [c]) s) @ [CHR 0x22]
      else s)"

fun join :: "char \<Rightarrow> string list \<Rightarrow> string" where
  "join sep [] = []"
| "join sep [x] = x"
| "join sep (x # y # ys) = x @ sep # join sep (y # ys)"

definition writerow :: "string list \<Rightarrow> string" where
  "writerow row = join CHR '','' (map csv_field row) @ [CR, LF]"

definition header :: "string list" where
  "header = [''date'',
     ''frontend_code'', ''frontend_comment'', ''frontend_blank'',
     ''backend_code'', ''backend_comment'', ''backend_blank'',
     ''total_code'']"

definition row_fields :: "string \<Rightarrow> stats \<Rightarrow> string list" where
  "row_fields date st =
     [date,
      py_str (code (frontend st)), py_str (comment (frontend st)), py_str (blank (frontend st)),
      py_str (code (backend st)), py_str (comment (backend st)), py_str (blank (backend st)),
      py_str (total_code st)]"

section \<open>The collection driver\<close>

text \<open>
  The state of the day loop: the content of the ledger file, the rows written so far
  (one entry per \<open>writer.writerow\<close> followed by \<open>f.flush()\<close>) and the temporary locations.
\<close>

record progress =
  content :: string
  rows :: "(string \<times> stats) list"
  temps :: "string set"

text \<open>
  The \<open>for\<close> loop of \<open>main\<close>. The second component is the exception that left the loop,
  if any: \<open>get_commit_for_date\<close> is not guarded.
\<close>

fun day_loop :: "world \<Rightarrow> string list \<Rightarrow> progress \<Rightarrow> progress \<times> error option" where
  "day_loop w [] p = (p, None)"
| "day_loop w (date # rest) p =
     (case get_commit_for_date w date of
        Inl e \<Rightarrow> (p, Some e)
      | Inr None \<Rightarrow> day_loop w rest p
      | Inr (Some commit) \<Rightarrow>
          (case collect_stats_for_commit (snapshot w commit) (temps p) of
             (None, t) \<Rightarrow> day_loop w rest (p\<lparr>temps := t\<rparr>)
           | (Some st, t) \<Rightarrow>
               day_loop w rest
                 \<lparr>content = content p @ writerow (row_fields date st),
                  rows = rows p @ [(date, st)],
                  temps = t\<rparr>))"

text \<open>\<open>[d for d in all_dates if not last_collected or d > last_collected]\<close>\<close>

definition dates_to_collect :: "string option \<Rightarrow> string list \<Rightarrow> string list" where
  "dates_to_collect last_collected all_dates =
     filter (\<lambda>d. (case last_collected of None \<Rightarrow> True | Some l \<Rightarrow> l = [] \<or> l < d)) all_dates"

text \<open>
  The result of a run: the ledger file, the rows appended, the temporary locations
  left, and the exit code of the process (0 when \<open>main\<close> returns, 1 when an exception
  leaves it).
\<close>

record outcome =
  ledger :: ledger_file
  appended :: "(string \<times> stats) list"
  temps_left :: "string set"
  exit_code :: int

definition main :: "bool \<Rightarrow> world \<Rightarrow> ledger_file \<Rightarrow> string set \<Rightarrow> outcome" where
  "main force_full w file temps0 =
     (let last_collected = (if force_full then None else get_last_collected_date file);
          initialise = (file = None \<or> force_full);
          content1 = (case file of
                        None \<Rightarrow> writerow header
                      | Some old \<Rightarrow> if initialise then writerow header else old);
          last_collected1 = (if initialise then None else last_collected)
      in case get_all_dates w of
           Inl e \<Rightarrow>
             \<lparr>ledger = Some content1, appended = [], temps_left = temps0, exit_code = 1\<rparr>
         | Inr all_dates \<Rightarrow>
             (let todo = dates_to_collect last_collected1 all_dates in
              if todo = [] then
                \<lparr>ledger = Some content1, appended = [], temps_left = temps0, exit_code = 0\<rparr>
              else
                (case day_loop w todo \<lparr>content = content1, rows = [], temps = temps0\<rparr> of
                   (p, failure) \<Rightarrow>
                     \<lparr>ledger = Some (content p), appended = rows p, temps_left = temps p,
                      exit_code = (case failure of None \<Rightarrow> 0 | Some e \<Rightarrow> 1)\<rparr>)))"

section \<open>Notions used by the properties\<close>

text \<open>
  A calendar day in the format \<open>YYYY-MM-DD\<close> that \<open>git log --date=short\<close> prints, its
  year, month and day of the month as numbers, and the chronological order of two days.
\<close>

definition is_day :: "string \<Rightarrow> bool" where
  "is_day s =
     (length s = 10 \<and> list_all is_ascii_digit (take 4 s) \<and> s ! 4 = CHR ''-'' \<and>
      list_all is_ascii_digit (take 2 (drop 5 s)) \<and> s ! 7 = CHR ''-'' \<and>
      list_all is_ascii_digit (drop 8 s))"

definition year_of :: "string \<Rightarrow> nat" where
  "year_of s = digits_val (take 4 s)"

definition month_of :: "string \<Rightarrow> nat" where
  "month_of s = digits_val (take 2 (drop 5 s))"

definition day_of :: "string \<Rightarrow> nat" where
  "day_of s = digits_val (drop 8 s)"

definition chron_less :: "string \<Rightarrow> string \<Rightarrow> bool" where
  "chron_less s t =
     (year_of s < year_of t \<or>
      year_of s = year_of t \<and>
        (month_of s < month_of t \<or> month_of s = month_of t \<and> day_of s < day_of t))"

text \<open>
  The row that the loop body writes for a day, if it writes one: the day resolves to a
  commit and the step of that commit returns statistics.
\<close>

definition day_row :: "world \<Rightarrow> string \<Rightarrow> stats option" where
  "day_row w date =
     (case get_commit_for_date w date of
        Inr (Some commit) \<Rightarrow> fst (collect_stats_for_commit (snapshot w commit) {})
      | _ \<Rightarrow> None)"

text \<open>The days up to the first one whose resolution raises; all of them when none does.\<close>

definition reached :: "world \<Rightarrow> string list \<Rightarrow> string list" where
  "reached w dates = takeWhile (\<lambda>d. \<not> isl (get_commit_for_date w d)) dates"

text \<open>The rows that the loop writes over a list of days, and their text in the file.\<close>

definition new_rows :: "world \<Rightarrow> string list \<Rightarrow> (string \<times> stats) list" where
  "new_rows w dates = List.map_filter (\<lambda>d. map_option (Pair d) (day_row w d)) (reached w dates)"

definition rows_text :: "(string \<times> stats) list \<Rightarrow> string" where
  "rows_text rs = concat (map (\<lambda>(d, st). writerow (row_fields d st)) rs)"

text \<open>
  The day of a line of the ledger, read the way \<open>get_last_collected_date\<close> reads the
  last line; the days of the rows, the first line being the header; a file whose last
  line is terminated; a ledger, absent or made of a header and complete lines, whose
  days increase strictly.
\<close>

definition row_day :: "string \<Rightarrow> string" where
  "row_day line = hd (split_on CHR '','' (py_strip line))"

definition ledger_days :: "string \<Rightarrow> string list" where
  "ledger_days text = map row_day (tl (readlines text))"

definition complete_lines :: "string \<Rightarrow> bool" where
  "complete_lines text = (text = [] \<or> last text = LF \<or> last text = CR)"

definition increasing_ledger :: "ledger_file \<Rightarrow> bool" where
  "increasing_ledger file =
     (case file of
        None \<Rightarrow> True
      | Some text \<Rightarrow>
          text \<noteq> [] \<and> complete_lines text \<and> sorted_wrt (<) (ledger_days text))"

text \<open>A line of the oracle's output that \<open>run_cloc\<close> takes for the aggregate row.\<close>

definition cloc_candidate :: "string \<Rightarrow> bool" where
  "cloc_candidate line =
     (line \<noteq> [] \<and> \<not> startswith line ''files'' \<and> length (split_on CHR '','' line) \<ge> 5)"

text \<open>
  A tracked path that the commit does not have: \<open>git archive\<close> exits with a non-zero
  code or without output, or the unpacked tree does not hold the path.
\<close>

definition subtree_absent :: "subtree_env \<Rightarrow> bool" where
  "subtree_absent e =
     (case archive e of
        Inl x \<Rightarrow> False
      | Inr result \<Rightarrow>
          returncode result \<noteq> 0 \<or> stdout result = [] \<or>
          (mkdir_ok e \<and> tar_ok e \<and> \<not> path_exists e))"

section \<open>A small repository\<close>

text \<open>
  A history of two days, whose commits have \<open>src\<close> but not \<open>src-tauri/src\<close>, and a
  ledger that holds the first day. The properties below are instantiated on them.
\<close>

definition demo_cloc :: process where
  "demo_cloc = Inr \<lparr>returncode = 0,
     stdout = ''files,language,blank,comment,code'' @ [LF] @ ''3,TypeScript,10,20,100'' @ [LF] @ ''3,SUM,10,20,100'' @ [LF]\<rparr>"

definition demo_subtree :: subtree_env where
  "demo_subtree = \<lparr>archive = Inr \<lparr>returncode = 0, stdout = ''tar''\<rparr>, mkdir_ok = True,
     tar_ok = True, path_exists = True, cloc = demo_cloc\<rparr>"

definition demo_snapshot :: snapshot_env where
  "demo_snapshot = \<lparr>mkdtemp = Inr ''loc_history_1'', frontend_env = demo_subtree,
     backend_env = demo_subtree\<lparr>archive := Inr \<lparr>returncode = 128, stdout = []\<rparr>\<rparr>, rmtree_ok = True\<rparr>"

definition demo_world :: world where
  "demo_world = \<lparr>git_log_dates = Inr \<lparr>returncode = 0,
       stdout = ''2024-01-02'' @ [LF] @ ''2024-01-01'' @ [LF] @ ''2024-01-02'' @ [LF]\<rparr>,
     git_log_until = (\<lambda>u. Inr \<lparr>returncode = 0, stdout = ''abc'' @ [LF]\<rparr>),
     snapshot = (\<lambda>c. demo_snapshot)\<rparr>"

definition demo_ledger :: string where
  "demo_ledger = writerow header @ ''2024-01-01,100,20,10,0,0,0,100'' @ [CR, LF]"

text \<open>
  The same repository when \<open>git log\<close> exits with code 128 and prints nothing, and when
  \<open>git\<close> cannot be started.
\<close>

definition failed_listing_world :: world where
  "failed_listing_world = demo_world\<lparr>git_log_dates := Inr \<lparr>returncode = 128, stdout = []\<rparr>\<rparr>"

definition no_git_world :: world where
  "no_git_world = demo_world\<lparr>git_log_dates := Inl OSError\<rparr>"




text \<open>The same repository when the first day resolves to no commit.\<close>

definition gap_world :: world where
  "gap_world = demo_world\<lparr>git_log_until :=
     (\<lambda>until. if until = ''2024-01-01 23:59:59'' then Inr \<lparr>returncode = 0, stdout = []\<rparr>
              else Inr \<lparr>returncode = 0, stdout = ''abc'' @ [LF]\<rparr>)\<rparr>"

text \<open>A step whose subdirectory cannot be made, and one whose oracle is missing.\<close>

definition mkdir_fails_snapshot :: snapshot_env where
  "mkdir_fails_snapshot = demo_snapshot\<lparr>frontend_env := demo_subtree\<lparr>mkdir_ok := False\<rparr>\<rparr>"

definition no_cloc_subtree :: subtree_env where
  "no_cloc_subtree = demo_subtree\<lparr>cloc := Inl OSError\<rparr>"

definition broken_step_world :: world where
  "broken_step_world = demo_world\<lparr>snapshot := (\<lambda>commit. mkdir_fails_snapshot)\<rparr>"

text \<open>A subtree whose archive unpacks without the tracked path.\<close>

definition unpacked_empty_subtree :: subtree_env where
  "unpacked_empty_subtree = demo_subtree\<lparr>path_exists := False\<rparr>"

text \<open>The step of the small repository when the location cannot be removed.\<close>

definition leaky_snapshot :: snapshot_env where
  "leaky_snapshot = demo_snapshot\<lparr>rmtree_ok := False\<rparr>"

section \<open>Digits and days\<close>

lemma foldl_digits_acc:
  fixes f :: "nat \<Rightarrow> char \<Rightarrow> nat"
  assumes f: "\<And>n c. f n c = 10 * n + digit_val c"
  shows "foldl f a xs = a * 10 ^ length xs + foldl f 0 xs"
proof (induction xs arbitrary: a)
  case Nil
  show ?case by simp
next
  case (Cons x xs)
  have 1: "foldl f (f a x) xs = f a x * 10 ^ length xs + foldl f 0 xs" by (rule Cons.IH)
  have 2: "foldl f (f 0 x) xs = f 0 x * 10 ^ length xs + foldl f 0 xs" by (rule Cons.IH)
  have 3: "f a x = 10 * a + digit_val x" "f 0 x = digit_val x" by (simp_all add: f)
  have "foldl f (f a x) xs = a * 10 ^ length (x # xs) + foldl f (f 0 x) xs"
    by (simp only: 1 2) (simp add: 3 algebra_simps)
  then show ?case by (simp only: foldl_Cons)
qed

lemma digits_val_Cons: "digits_val (c # cs) = digit_val c * 10 ^ length cs + digits_val cs"
  unfolding digits_val_def
  using foldl_digits_acc [of "\<lambda>n c. 10 * n + digit_val c" "digit_val c" cs] by simp

lemma digit_val_less_10: "is_ascii_digit c \<Longrightarrow> digit_val c < 10"
  by (auto simp add: is_ascii_digit_def digit_val_def less_eq_char_def)

lemma digits_val_bound: "list_all is_ascii_digit cs \<Longrightarrow> digits_val cs < 10 ^ length cs"
proof (induction cs)
  case Nil
  show ?case by (simp add: digits_val_def)
next
  case (Cons c cs)
  then have c: "digit_val c \<le> 9" and r: "digits_val cs < 10 ^ length cs"
    using digit_val_less_10 [of c] by auto
  have "digit_val c * 10 ^ length cs \<le> 9 * 10 ^ length cs"
    using c by (rule mult_le_mono1)
  then have "digit_val c * 10 ^ length cs + digits_val cs < 10 * 10 ^ length cs"
    using r by linarith
  then show ?case by (simp only: digits_val_Cons length_Cons power_Suc)
qed

lemma digit_char_less: "is_ascii_digit c \<Longrightarrow> is_ascii_digit d \<Longrightarrow> (c < d) = (digit_val c < digit_val d)"
  by (auto simp add: is_ascii_digit_def digit_val_def less_eq_char_def less_char_def)

lemma digit_char_eq: "is_ascii_digit c \<Longrightarrow> is_ascii_digit d \<Longrightarrow> (c = d) = (digit_val c = digit_val d)"
proof -
  assume "is_ascii_digit c" "is_ascii_digit d"
  then have "48 \<le> (of_char c :: nat)" "48 \<le> (of_char d :: nat)"
    by (simp_all add: is_ascii_digit_def less_eq_char_def)
  then have "(digit_val c = digit_val d) = ((of_char c :: nat) = of_char d)"
    unfolding digit_val_def by linarith
  then show ?thesis by simp
qed

lemma weigh_less:
  fixes a b x y p :: nat
  assumes "x < p" "y < p"
  shows "(a * p + x < b * p + y) = (a < b \<or> a = b \<and> x < y)"
proof (cases "a < b")
  case True
  then have "Suc a * p \<le> b * p" by (intro mult_le_mono1) simp
  then show ?thesis using True assms by simp
next
  case False
  show ?thesis
  proof (cases "a = b")
    case True
    then show ?thesis by simp
  next
    case False
    with \<open>\<not> a < b\<close> have "b < a" by simp
    then have "Suc b * p \<le> a * p" by (intro mult_le_mono1) simp
    then show ?thesis using \<open>b < a\<close> assms by simp
  qed
qed

lemma weigh_eq:
  fixes a b x y p :: nat
  assumes "x < p" "y < p"
  shows "(a * p + x = b * p + y) = (a = b \<and> x = y)"
  using weigh_less [OF assms, of a b] weigh_less [OF assms(2) assms(1), of b a] by auto

lemma digits_order:
  "length xs = length ys \<Longrightarrow> list_all is_ascii_digit xs \<Longrightarrow> list_all is_ascii_digit ys \<Longrightarrow>
     (xs < ys) = (digits_val xs < digits_val ys) \<and> (xs = ys) = (digits_val xs = digits_val ys)"
proof (induction xs ys rule: list_induct2)
  case Nil
  show ?case by simp
next
  case (Cons x xs y ys)
  then have dx: "is_ascii_digit x" and dy: "is_ascii_digit y"
    and ax: "list_all is_ascii_digit xs" and ay: "list_all is_ascii_digit ys" by simp_all
  have bx: "digits_val xs < 10 ^ length ys" using digits_val_bound [OF ax] Cons.hyps by simp
  have by': "digits_val ys < 10 ^ length ys" by (rule digits_val_bound [OF ay])
  have ih: "(xs < ys) = (digits_val xs < digits_val ys)" "(xs = ys) = (digits_val xs = digits_val ys)"
    using Cons.IH [OF ax ay] by simp_all
  show ?case
    using weigh_less [OF bx by', of "digit_val x" "digit_val y"]
      weigh_eq [OF bx by', of "digit_val x" "digit_val y"]
    by (simp add: digits_val_Cons Cons.hyps ih digit_char_less [OF dx dy] digit_char_eq [OF dx dy])
qed

lemma less_append_same_length:
  "length a = length b \<Longrightarrow> (a @ x < b @ y) = (a < b \<or> a = b \<and> x < y)"
  by (induction a b rule: list_induct2) auto

lemma day_parts:
  assumes "is_day s"
  shows "s = take 4 s @ CHR ''-'' # take 2 (drop 5 s) @ CHR ''-'' # drop 8 s"
proof -
  have len: "length s = 10" and h4: "s ! 4 = CHR ''-''" and h7: "s ! 7 = CHR ''-''"
    using assms by (simp_all add: is_day_def)
  have a: "drop 4 s = s ! 4 # drop 5 s" using len by (simp add: Cons_nth_drop_Suc [symmetric])
  have b: "drop 7 s = s ! 7 # drop 8 s" using len by (simp add: Cons_nth_drop_Suc [symmetric])
  have c: "drop 5 s = take 2 (drop 5 s) @ drop 7 s"
    using append_take_drop_id [of 2 "drop 5 s"] by simp
  have "s = take 4 s @ drop 4 s" by simp
  then show ?thesis using a b c h4 h7 by metis
qed

lemma is_day_less_iff:
  assumes s: "is_day s" and t: "is_day t"
  shows "(s < t) = chron_less s t"
proof -
  have ly: "length (take 4 s) = length (take 4 t)"
    and lm: "length (take 2 (drop 5 s)) = length (take 2 (drop 5 t))"
    and ld: "length (drop 8 s) = length (drop 8 t)"
    using s t by (simp_all add: is_day_def)
  have y: "(take 4 s < take 4 t) = (year_of s < year_of t)" "(take 4 s = take 4 t) = (year_of s = year_of t)"
    using digits_order [OF ly] s t by (simp_all add: is_day_def year_of_def)
  have m: "(take 2 (drop 5 s) < take 2 (drop 5 t)) = (month_of s < month_of t)"
      "(take 2 (drop 5 s) = take 2 (drop 5 t)) = (month_of s = month_of t)"
    using digits_order [OF lm] s t by (simp_all add: is_day_def month_of_def)
  have d: "(drop 8 s < drop 8 t) = (day_of s < day_of t)"
    using digits_order [OF ld] s t by (simp_all add: is_day_def day_of_def)
  have "(s < t) =
    (take 4 s @ CHR ''-'' # take 2 (drop 5 s) @ CHR ''-'' # drop 8 s
      < take 4 t @ CHR ''-'' # take 2 (drop 5 t) @ CHR ''-'' # drop 8 t)"
    using day_parts [OF s] day_parts [OF t] by simp
  also have "\<dots> = (take 4 s < take 4 t \<or> take 4 s = take 4 t \<and>
      (take 2 (drop 5 s) < take 2 (drop 5 t) \<or>
       take 2 (drop 5 s) = take 2 (drop 5 t) \<and> drop 8 s < drop 8 t))"
    by (simp add: less_append_same_length [OF ly] less_append_same_length [OF lm])
  finally show ?thesis by (simp add: y m d chron_less_def)
qed

section \<open>The day loop\<close>

lemma collect_stats_fst:
  "fst (collect_stats_for_commit e t) = fst (collect_stats_for_commit e {})"
  by (simp add: collect_stats_for_commit_def Let_def split: sum.splits)

lemma reached_Cons:
  "reached w (d # ds) = (if isl (get_commit_for_date w d) then [] else d # reached w ds)"
  by (simp add: reached_def)

lemma new_rows_Nil: "new_rows w [] = []"
  by (simp add: new_rows_def reached_def map_filter_simps)

lemma new_rows_Cons:
  "new_rows w (d # ds) =
     (case get_commit_for_date w d of
        Inl e \<Rightarrow> []
      | Inr c \<Rightarrow> (case day_row w d of None \<Rightarrow> new_rows w ds | Some st \<Rightarrow> (d, st) # new_rows w ds))"
  by (simp add: new_rows_def reached_Cons map_filter_simps split: sum.splits option.splits)

lemma day_loop_char:
  "day_loop w ds p = (p', f) \<Longrightarrow>
     rows p' = rows p @ new_rows w ds \<and>
     content p' = content p @ rows_text (new_rows w ds) \<and>
     (f = None) = (reached w ds = ds)"
proof (induction ds arbitrary: p)
  case Nil
  then show ?case by (simp add: new_rows_Nil rows_text_def reached_def)
next
  case (Cons d ds)
  show ?case
  proof (cases "get_commit_for_date w d")
    case (Inl e)
    with Cons.prems show ?thesis
      by (auto simp add: new_rows_Cons reached_Cons rows_text_def)
  next
    case (Inr c)
    show ?thesis
    proof (cases c)
      case None
      with Inr Cons.prems have "day_loop w ds p = (p', f)" by simp
      from Cons.IH [OF this] Inr None show ?thesis
        by (simp add: new_rows_Cons reached_Cons day_row_def)
    next
      case (Some commit)
      obtain r t where step: "collect_stats_for_commit (snapshot w commit) (temps p) = (r, t)"
        by (cases "collect_stats_for_commit (snapshot w commit) (temps p)")
      then have row: "day_row w d = r"
        using Inr Some collect_stats_fst [of "snapshot w commit" "temps p"]
        by (simp add: day_row_def)
      show ?thesis
      proof (cases r)
        case None
        with Inr Some step Cons.prems have "day_loop w ds (p\<lparr>temps := t\<rparr>) = (p', f)" by simp
        from Cons.IH [OF this] Inr row None show ?thesis
          by (simp add: new_rows_Cons reached_Cons)
      next
        case (Some st)
        with Inr \<open>c = Some commit\<close> step Cons.prems
        have "day_loop w ds \<lparr>content = content p @ writerow (row_fields d st),
                rows = rows p @ [(d, st)], temps = t\<rparr> = (p', f)" by simp
        from Cons.IH [OF this] Inr row Some show ?thesis
          by (simp add: new_rows_Cons reached_Cons rows_text_def)
      qed
    qed
  qed
qed

lemma main_appended:
  "get_all_dates w = Inr all_dates \<Longrightarrow>
     appended (main force_full w file t) =
       new_rows w (dates_to_collect
         (if file = None \<or> force_full then None else get_last_collected_date file) all_dates)"
proof -
  assume a: "get_all_dates w = Inr all_dates"
  let ?todo = "dates_to_collect
         (if file = None \<or> force_full then None else get_last_collected_date file) all_dates"
  let ?c = "case file of None \<Rightarrow> writerow header | Some old \<Rightarrow> if file = None \<or> force_full then writerow header else old"
  obtain p f where l: "day_loop w ?todo \<lparr>content = ?c, rows = [], temps = t\<rparr> = (p, f)"
    by (cases "day_loop w ?todo \<lparr>content = ?c, rows = [], temps = t\<rparr>")
  from day_loop_char [OF l] have "rows p = new_rows w ?todo" by simp
  with a l show ?thesis
    by (auto simp add: main_def Let_def new_rows_Nil)
qed

lemma main_appended_raise:
  "get_all_dates w = Inl e \<Longrightarrow> appended (main force_full w file t) = []"
  by (simp add: main_def Let_def)

lemma main_ledger:
  "ledger (main force_full w file t) =
     Some ((case file of None \<Rightarrow> writerow header
            | Some old \<Rightarrow> if force_full then writerow header else old)
           @ rows_text (appended (main force_full w file t)))"
proof (cases "get_all_dates w")
  case (Inl e)
  then show ?thesis by (auto simp add: main_def Let_def rows_text_def split: option.splits)
next
  case (Inr all_dates)
  let ?todo = "dates_to_collect
         (if file = None \<or> force_full then None else get_last_collected_date file) all_dates"
  let ?c = "case file of None \<Rightarrow> writerow header | Some old \<Rightarrow> if file = None \<or> force_full then writerow header else old"
  obtain p f where l: "day_loop w ?todo \<lparr>content = ?c, rows = [], temps = t\<rparr> = (p, f)"
    by (cases "day_loop w ?todo \<lparr>content = ?c, rows = [], temps = t\<rparr>")
  from day_loop_char [OF l] have "rows p = new_rows w ?todo" "content p = ?c @ rows_text (new_rows w ?todo)" by simp_all
  with Inr l show ?thesis
    by (auto simp add: main_def Let_def rows_text_def split: option.splits)
qed

section \<open>The rows of a run\<close>

lemma map_fst_new_rows:
  "map fst (new_rows w ds) = filter (\<lambda>d. day_row w d \<noteq> None) (reached w ds)"
proof (induction ds)
  case Nil
  show ?case by (simp add: new_rows_Nil reached_def)
next
  case (Cons d ds)
  then show ?case
    by (auto simp add: new_rows_Cons reached_Cons split: sum.splits option.splits)
qed

lemma new_rows_days: "(d, st) \<in> set (new_rows w ds) \<Longrightarrow> d \<in> set ds"
proof -
  assume "(d, st) \<in> set (new_rows w ds)"
  then have "d \<in> set (map fst (new_rows w ds))" by force
  then have "d \<in> set (reached w ds)" by (simp add: map_fst_new_rows)
  then show ?thesis unfolding reached_def by (rule set_takeWhileD [THEN conjunct1])
qed

lemma day_row_reached: "\<forall>d \<in> set ds. day_row w d \<noteq> None \<Longrightarrow> reached w ds = ds"
  unfolding reached_def
  by (rule takeWhile_eq_all_conv [THEN iffD2]) (auto simp add: day_row_def isl_def)

lemma get_all_dates_sorted:
  "get_all_dates w = Inr ds \<Longrightarrow> sorted_wrt (<) ds \<and> [] \<notin> set ds"
  by (auto simp add: get_all_dates_def Let_def sorted_wrt_filter split: sum.splits prod.splits)

lemma dates_to_collect_None: "dates_to_collect None ds = ds"
  by (simp add: dates_to_collect_def)

lemma get_last_collected_date_None: "get_last_collected_date None = None"
  by (simp add: get_last_collected_date_def)


section \<open>Day order\<close>

text \<open>
  C10 (day order by string operations). The enumerator sorts the day strings and the
  resume filter compares them with the order of strings; on days in the format
  \<open>YYYY-MM-DD\<close> that order is the chronological one, so the enumerated days ascend
  chronologically and the filter keeps the days that come after the last collected one.
\<close>

theorem day_strings_order_chronologically:
  "(is_day s \<and> is_day t \<longrightarrow> (s < t) = chron_less s t) \<and>
   (get_all_dates w = Inr ds \<and> (\<forall>d \<in> set ds. is_day d) \<longrightarrow> sorted_wrt chron_less ds) \<and>
   (is_day l \<and> (\<forall>d \<in> set ds'. is_day d) \<longrightarrow>
      dates_to_collect (Some l) ds' = filter (chron_less l) ds')"
proof (intro conjI impI)
  assume "is_day s \<and> is_day t"
  then show "(s < t) = chron_less s t" by (simp add: is_day_less_iff)
next
  assume a: "get_all_dates w = Inr ds \<and> (\<forall>d \<in> set ds. is_day d)"
  then have "sorted_wrt (<) ds" using get_all_dates_sorted by blast
  then show "sorted_wrt chron_less ds"
    by (rule sorted_wrt_mono_rel [rotated]) (use a in \<open>simp add: is_day_less_iff\<close>)
next
  assume a: "is_day l \<and> (\<forall>d \<in> set ds'. is_day d)"
  then have "l \<noteq> []" by (auto simp add: is_day_def)
  then show "dates_to_collect (Some l) ds' = filter (chron_less l) ds'"
    unfolding dates_to_collect_def using a
    by (intro filter_cong) (simp_all add: is_day_less_iff)
qed

theorem day_strings_order_chronologically_witness:
  "is_day ''2023-12-31'' \<and> is_day ''2024-01-02'' \<and>
   ''2023-12-31'' < ''2024-01-02'' \<and> chron_less ''2023-12-31'' ''2024-01-02'' \<and>
   get_all_dates demo_world = Inr [''2024-01-01'', ''2024-01-02''] \<and>
   list_all is_day [''2024-01-01'', ''2024-01-02''] \<and>
   sorted_wrt chron_less [''2024-01-01'', ''2024-01-02''] \<and>
   dates_to_collect (Some ''2024-01-01'') [''2024-01-01'', ''2024-01-02'']
     = filter (chron_less ''2024-01-01'') [''2024-01-01'', ''2024-01-02''] \<and>
   filter (chron_less ''2024-01-01'') [''2024-01-01'', ''2024-01-02''] = [''2024-01-02'']"
proof -
  have 1: "is_day ''2023-12-31''" "is_day ''2024-01-02''" "is_day ''2024-01-01''" by code_simp+
  have 2: "''2023-12-31'' < ''2024-01-02''" by code_simp
  have 3: "get_all_dates demo_world = Inr [''2024-01-01'', ''2024-01-02'']" by code_simp
  have 4: "\<forall>d \<in> set [''2024-01-01'', ''2024-01-02'']. is_day d" using 1 by simp
  have 5: "filter (chron_less ''2024-01-01'') [''2024-01-01'', ''2024-01-02''] = [''2024-01-02'']"
    by code_simp
  note t = day_strings_order_chronologically
  from t [of "''2023-12-31''" "''2024-01-02''"] 1 2
  have 6: "chron_less ''2023-12-31'' ''2024-01-02''" by blast
  from t [of _ _ demo_world "[''2024-01-01'', ''2024-01-02'']"] 3 4
  have 7: "sorted_wrt chron_less [''2024-01-01'', ''2024-01-02'']" by blast
  from t [of _ _ _ _ "''2024-01-01''" "[''2024-01-01'', ''2024-01-02'']"] 1 4
  have 8: "dates_to_collect (Some ''2024-01-01'') [''2024-01-01'', ''2024-01-02'']
     = filter (chron_less ''2024-01-01'') [''2024-01-01'', ''2024-01-02'']" by blast
  from 1 2 3 4 5 6 7 8 show ?thesis unfolding list_all_iff by blast
qed

section \<open>A failing history listing\<close>

lemma get_all_dates_empty_output:
  "git_log_dates w = Inr r \<Longrightarrow> py_strip (stdout r) = [] \<Longrightarrow> get_all_dates w = Inr []"
  by (simp add: get_all_dates_def run_git_def)

lemma get_all_dates_raises: "git_log_dates w = Inl e \<Longrightarrow> get_all_dates w = Inl e"
  by (simp add: get_all_dates_def run_git_def)

lemma get_all_dates_ignores_returncode:
  "get_all_dates (w\<lparr>git_log_dates := Inr (r\<lparr>returncode := c\<rparr>)\<rparr>)
     = get_all_dates (w\<lparr>git_log_dates := Inr r\<rparr>)"
  by (simp add: get_all_dates_def run_git_def)

lemma get_commit_for_date_listing:
  "get_commit_for_date (w\<lparr>git_log_dates := p\<rparr>) d = get_commit_for_date w d"
  by (simp add: get_commit_for_date_def)

lemma day_loop_listing:
  "day_loop (w\<lparr>git_log_dates := p\<rparr>) ds st = day_loop w ds st"
  by (induction ds arbitrary: st)
    (simp_all add: get_commit_for_date_listing split: sum.splits option.splits prod.splits)

lemma main_listing_cong:
  assumes 1: "get_all_dates w = get_all_dates w'"
    and 2: "\<And>ds st. day_loop w ds st = day_loop w' ds st"
  shows "main force_full w lf t0 = main force_full w' lf t0"
  unfolding main_def 1 2 by (rule refl)

text \<open>
  C3, as the code has it. When the history listing cannot be started, the exception leaves
  \<open>main\<close>: the exit code is 1 and no row is appended (the ledger holds its header when it
  was absent or \<open>--full\<close> was given, and is unchanged otherwise). When the listing runs, its
  return code is ignored: the run is the one with return code 0, and with empty output
  it ends with exit code 0 and no row appended.
\<close>

theorem listing_failure_outcome:
  "(git_log_dates w = Inl e \<longrightarrow>
      exit_code (main force_full w lf t0) = 1 \<and> appended (main force_full w lf t0) = [] \<and>
      ledger (main force_full w lf t0) =
        Some (case lf of None \<Rightarrow> writerow header
              | Some old \<Rightarrow> if force_full then writerow header else old)) \<and>
   main force_full (w\<lparr>git_log_dates := Inr r\<rparr>) lf t0
     = main force_full (w\<lparr>git_log_dates := Inr (r\<lparr>returncode := 0\<rparr>)\<rparr>) lf t0 \<and>
   (git_log_dates w = Inr r \<and> py_strip (stdout r) = [] \<longrightarrow>
      exit_code (main force_full w lf t0) = 0 \<and> appended (main force_full w lf t0) = [] \<and>
      ledger (main force_full w lf t0) =
        Some (case lf of None \<Rightarrow> writerow header
              | Some old \<Rightarrow> if force_full then writerow header else old))"
proof (intro conjI impI)
  assume "git_log_dates w = Inl e"
  then have a: "get_all_dates w = Inl e" by (rule get_all_dates_raises)
  then show "exit_code (main force_full w lf t0) = 1"
    by (simp add: main_def Let_def)
  show "appended (main force_full w lf t0) = []"
    using a by (rule main_appended_raise)
  then show "ledger (main force_full w lf t0) =
        Some (case lf of None \<Rightarrow> writerow header
              | Some old \<Rightarrow> if force_full then writerow header else old)"
    using main_ledger [of force_full w lf t0] by (simp add: rows_text_def)
next
  show "main force_full (w\<lparr>git_log_dates := Inr r\<rparr>) lf t0
     = main force_full (w\<lparr>git_log_dates := Inr (r\<lparr>returncode := 0\<rparr>)\<rparr>) lf t0"
    by (rule main_listing_cong)
      (simp_all add: get_all_dates_ignores_returncode day_loop_listing)
next
  assume "git_log_dates w = Inr r \<and> py_strip (stdout r) = []"
  then have a: "get_all_dates w = Inr []" by (simp add: get_all_dates_empty_output)
  then show "exit_code (main force_full w lf t0) = 0"
    by (simp add: main_def Let_def dates_to_collect_def)
  show "appended (main force_full w lf t0) = []"
    using main_appended [OF a, of force_full lf t0] by (simp add: dates_to_collect_def new_rows_Nil)
  then show "ledger (main force_full w lf t0) =
        Some (case lf of None \<Rightarrow> writerow header
              | Some old \<Rightarrow> if force_full then writerow header else old)"
    using main_ledger [of force_full w lf t0] by (simp add: rows_text_def)
qed

theorem listing_failure_outcome_witness:
  "git_log_dates no_git_world = Inl OSError \<and>
   exit_code (main False no_git_world None {}) = 1 \<and>
   appended (main False no_git_world None {}) = [] \<and>
   ledger (main False no_git_world None {}) = Some (writerow header) \<and>
   git_log_dates failed_listing_world = Inr \<lparr>returncode = 128, stdout = []\<rparr> \<and>
   exit_code (main False failed_listing_world (Some demo_ledger) {}) = 0 \<and>
   appended (main False failed_listing_world (Some demo_ledger) {}) = [] \<and>
   ledger (main False failed_listing_world (Some demo_ledger) {}) = Some demo_ledger"
proof -
  have 1: "git_log_dates no_git_world = Inl OSError"
    by (simp add: no_git_world_def demo_world_def)
  have 2: "git_log_dates failed_listing_world = Inr \<lparr>returncode = 128, stdout = []\<rparr>"
    by (simp add: failed_listing_world_def demo_world_def)
  have 3: "py_strip (stdout \<lparr>returncode = 128, stdout = []\<rparr>) = []" by (simp add: py_strip_def)
  from listing_failure_outcome [of no_git_world OSError False None "{}"] 1
  have 4: "exit_code (main False no_git_world None {}) = 1 \<and>
   appended (main False no_git_world None {}) = [] \<and>
   ledger (main False no_git_world None {}) = Some (writerow header)" by simp
  from listing_failure_outcome [of failed_listing_world _ False "Some demo_ledger" "{}"
      "\<lparr>returncode = 128, stdout = []\<rparr>"] 2 3
  have 5: "exit_code (main False failed_listing_world (Some demo_ledger) {}) = 0 \<and>
   appended (main False failed_listing_world (Some demo_ledger) {}) = [] \<and>
   ledger (main False failed_listing_world (Some demo_ledger) {}) = Some demo_ledger" by simp
  from 1 2 4 5 show ?thesis by blast
qed

text \<open>
  C3 as stated fails: a history listing that exits with code 128 and no output does not
  abort the run; the run ends with exit code 0, as when there is nothing to collect.
\<close>

theorem failed_listing_exits_zero_counterexample:
  "\<not> (returncode \<lparr>returncode = 128, stdout = []\<rparr> \<noteq> 0 \<longrightarrow>
        exit_code (main False (demo_world\<lparr>git_log_dates := Inr \<lparr>returncode = 128, stdout = []\<rparr>\<rparr>) None {}) \<noteq> 0)"
  by code_simp

section \<open>The size oracle\<close>

lemma cloc_scan_None: "\<not> list_ex cloc_candidate ls \<Longrightarrow> cloc_scan ls = None"
  by (induction ls) (auto simp add: cloc_candidate_def Let_def)

lemma list_ex_rev: "list_ex P (rev xs) = list_ex P xs"
  by (simp add: list_ex_iff)




section \<open>Failures within a day\<close>

lemma run_cloc_no_candidate:
  "(case p of
      Inl e \<Rightarrow> True
    | Inr result \<Rightarrow> \<not> list_ex cloc_candidate (split_on LF (py_strip (stdout result))))
   \<Longrightarrow> run_cloc dir_exists p = zero_metric"
  by (cases p)
    (simp_all add: run_cloc_def run_cloc_try_def cloc_scan_None list_ex_rev)

lemma main_exit_code:
  "get_all_dates w = Inr ds \<Longrightarrow>
     exit_code (main force_full w lf t0) =
       (let todo = dates_to_collect
          (if lf = None \<or> force_full then None else get_last_collected_date lf) ds
        in if reached w todo = todo then 0 else 1)"
proof -
  assume a: "get_all_dates w = Inr ds"
  let ?todo = "dates_to_collect
         (if lf = None \<or> force_full then None else get_last_collected_date lf) ds"
  let ?c = "case lf of None \<Rightarrow> writerow header | Some old \<Rightarrow> if lf = None \<or> force_full then writerow header else old"
  obtain p f where l: "day_loop w ?todo \<lparr>content = ?c, rows = [], temps = t0\<rparr> = (p, f)"
    by (cases "day_loop w ?todo \<lparr>content = ?c, rows = [], temps = t0\<rparr>")
  from day_loop_char [OF l] have "(f = None) = (reached w ?todo = ?todo)" by simp
  with a l show ?thesis
    by (cases f) (auto simp add: main_def Let_def reached_def)
qed

lemma reached_all: "\<forall>d \<in> set ds. \<not> isl (get_commit_for_date w d) \<Longrightarrow> reached w ds = ds"
  unfolding reached_def by (rule takeWhile_eq_all_conv [THEN iffD2])

lemma new_rows_day_row: "(d, st) \<in> set (new_rows w ds) \<Longrightarrow> day_row w d = Some st"
  by (auto simp add: new_rows_def map_filter_def)

lemma collect_stats_result:
  "fst (collect_stats_for_commit s t0) =
     (case mkdtemp s of Inl x \<Rightarrow> None | Inr d \<Rightarrow> collect_stats_try s)"
  by (simp add: collect_stats_for_commit_def Let_def split: sum.splits)

lemma extract_subtree_archive_failed:
  "archive e = Inr r \<Longrightarrow> returncode r \<noteq> 0 \<or> stdout r = [] \<Longrightarrow> extract_subtree e = Inr zero_metric"
  by (auto simp add: extract_subtree_def)

lemma extract_subtree_absent: "subtree_absent e \<Longrightarrow> extract_subtree e = Inr zero_metric"
  by (auto simp add: subtree_absent_def extract_subtree_def split: sum.splits)

text \<open>
  C5, as the code has it. In a run whose history queries can be started, every day to
  collect is processed and the run ends with exit code 0. A day that resolves to no
  commit, or whose step raises (the step returns no statistics), is skipped: no row is
  appended for it. A subtree whose archive fails, or whose oracle fails, has the all-zero
  metric in the row of its day, and that row is appended.
\<close>

theorem sub_failures_skip_or_degrade:
  "(get_all_dates w = Inr ds \<and> (\<forall>d \<in> set ds. \<not> isl (get_commit_for_date w d)) \<longrightarrow>
      exit_code (main force_full w lf t0) = 0 \<and>
      map fst (appended (main force_full w lf t0)) =
        filter (\<lambda>d. day_row w d \<noteq> None)
          (dates_to_collect
             (if lf = None \<or> force_full then None else get_last_collected_date lf) ds) \<and>
      (\<forall>(d, st) \<in> set (appended (main force_full w lf t0)). day_row w d = Some st)) \<and>
   (get_commit_for_date w d = Inr None \<longrightarrow> day_row w d = None) \<and>
   (get_commit_for_date w d = Inr (Some c) \<and>
      (isl (mkdtemp (snapshot w c)) \<or> isl (extract_subtree (frontend_env (snapshot w c))) \<or>
       isl (extract_subtree (backend_env (snapshot w c)))) \<longrightarrow> day_row w d = None) \<and>
   (get_commit_for_date w d = Inr (Some c) \<and> mkdtemp (snapshot w c) = Inr tmp \<and>
      extract_subtree (frontend_env (snapshot w c)) = Inr f \<and>
      extract_subtree (backend_env (snapshot w c)) = Inr b \<longrightarrow>
      day_row w d = Some \<lparr>frontend = f, backend = b, total_code = code f + code b\<rparr>) \<and>
   (archive e = Inr r \<and> (returncode r \<noteq> 0 \<or> stdout r = []) \<longrightarrow>
      extract_subtree e = Inr zero_metric) \<and>
   (archive e = Inr r \<and> returncode r = 0 \<and> stdout r \<noteq> [] \<and> mkdir_ok e \<and> tar_ok e \<and>
      (case cloc e of
         Inl x \<Rightarrow> True
       | Inr result \<Rightarrow> \<not> list_ex cloc_candidate (split_on LF (py_strip (stdout result)))) \<longrightarrow>
      extract_subtree e = Inr zero_metric)"
proof (intro conjI impI)
  let ?todo = "dates_to_collect
             (if lf = None \<or> force_full then None else get_last_collected_date lf) ds"
  assume a: "get_all_dates w = Inr ds \<and> (\<forall>d \<in> set ds. \<not> isl (get_commit_for_date w d))"
  then have "\<forall>d \<in> set ?todo. \<not> isl (get_commit_for_date w d)"
    by (simp add: dates_to_collect_def)
  then have r: "reached w ?todo = ?todo" by (rule reached_all)
  have app: "appended (main force_full w lf t0) = new_rows w ?todo"
    using a main_appended by blast
  show "exit_code (main force_full w lf t0) = 0"
    using a main_exit_code [of w ds force_full lf t0] r by (simp add: Let_def)
  show "map fst (appended (main force_full w lf t0)) = filter (\<lambda>d. day_row w d \<noteq> None) ?todo"
    by (simp add: app map_fst_new_rows r)
  show "\<forall>(d, st) \<in> set (appended (main force_full w lf t0)). day_row w d = Some st"
    unfolding app using new_rows_day_row by blast
next
  assume "get_commit_for_date w d = Inr None"
  then show "day_row w d = None" by (simp add: day_row_def)
next
  assume "get_commit_for_date w d = Inr (Some c) \<and>
      (isl (mkdtemp (snapshot w c)) \<or> isl (extract_subtree (frontend_env (snapshot w c))) \<or>
       isl (extract_subtree (backend_env (snapshot w c))))"
  then show "day_row w d = None"
    by (auto simp add: day_row_def collect_stats_result collect_stats_try_def isl_def
        split: sum.splits)
next
  assume "get_commit_for_date w d = Inr (Some c) \<and> mkdtemp (snapshot w c) = Inr tmp \<and>
      extract_subtree (frontend_env (snapshot w c)) = Inr f \<and>
      extract_subtree (backend_env (snapshot w c)) = Inr b"
  then show "day_row w d = Some \<lparr>frontend = f, backend = b, total_code = code f + code b\<rparr>"
    by (simp add: day_row_def collect_stats_result collect_stats_try_def)
next
  assume "archive e = Inr r \<and> (returncode r \<noteq> 0 \<or> stdout r = [])"
  then show "extract_subtree e = Inr zero_metric"
    using extract_subtree_archive_failed by blast
next
  assume a: "archive e = Inr r \<and> returncode r = 0 \<and> stdout r \<noteq> [] \<and> mkdir_ok e \<and> tar_ok e \<and>
      (case cloc e of
         Inl x \<Rightarrow> True
       | Inr result \<Rightarrow> \<not> list_ex cloc_candidate (split_on LF (py_strip (stdout result))))"
  then have "run_cloc True (cloc e) = zero_metric"
    by (intro run_cloc_no_candidate) simp
  with a show "extract_subtree e = Inr zero_metric"
    by (simp add: extract_subtree_def)
qed

theorem sub_failures_skip_or_degrade_witness:
  "get_all_dates gap_world = Inr [''2024-01-01'', ''2024-01-02''] \<and>
   list_all (\<lambda>d. \<not> isl (get_commit_for_date gap_world d)) [''2024-01-01'', ''2024-01-02''] \<and>
   exit_code (main False gap_world None {}) = 0 \<and>
   map fst (appended (main False gap_world None {})) = [''2024-01-02''] \<and>
   get_commit_for_date gap_world ''2024-01-01'' = Inr None \<and>
   day_row gap_world ''2024-01-01'' = None \<and>
   get_commit_for_date broken_step_world ''2024-01-01'' = Inr (Some ''abc'') \<and>
   isl (extract_subtree (frontend_env (snapshot broken_step_world ''abc''))) \<and>
   day_row broken_step_world ''2024-01-01'' = None \<and>
   day_row demo_world ''2024-01-02'' =
     Some \<lparr>frontend = \<lparr>code = 100, comment = 20, blank = 10\<rparr>, backend = zero_metric,
           total_code = 100\<rparr> \<and>
   extract_subtree (backend_env demo_snapshot) = Inr zero_metric \<and>
   extract_subtree no_cloc_subtree = Inr zero_metric"
proof -
  note t = sub_failures_skip_or_degrade
  have 1: "get_all_dates gap_world = Inr [''2024-01-01'', ''2024-01-02'']" by code_simp
  have 2: "\<forall>d \<in> set [''2024-01-01'', ''2024-01-02'']. \<not> isl (get_commit_for_date gap_world d)"
    by code_simp
  have 3: "filter (\<lambda>d. day_row gap_world d \<noteq> None)
      (dates_to_collect None [''2024-01-01'', ''2024-01-02'']) = [''2024-01-02'']" by code_simp
  from t [of gap_world "[''2024-01-01'', ''2024-01-02'']" False None "{}"] 1 2 3
  have 4: "exit_code (main False gap_world None {}) = 0 \<and>
   map fst (appended (main False gap_world None {})) = [''2024-01-02'']" by simp
  have 5: "get_commit_for_date gap_world ''2024-01-01'' = Inr None" by code_simp
  from t [of gap_world _ _ _ _ "''2024-01-01''"] 5
  have 6: "day_row gap_world ''2024-01-01'' = None" by blast
  have 7: "get_commit_for_date broken_step_world ''2024-01-01'' = Inr (Some ''abc'')" by code_simp
  have 8: "isl (extract_subtree (frontend_env (snapshot broken_step_world ''abc'')))" by code_simp
  from t [of broken_step_world _ _ _ _ "''2024-01-01''" "''abc''"] 7 8
  have 9: "day_row broken_step_world ''2024-01-01'' = None" by blast
  have 10: "get_commit_for_date demo_world ''2024-01-02'' = Inr (Some ''abc'')"
      "mkdtemp (snapshot demo_world ''abc'') = Inr ''loc_history_1''"
      "extract_subtree (frontend_env (snapshot demo_world ''abc''))
         = Inr \<lparr>code = 100, comment = 20, blank = 10\<rparr>"
      "extract_subtree (backend_env (snapshot demo_world ''abc'')) = Inr zero_metric"
    by code_simp+
  from t [of demo_world _ _ _ _ "''2024-01-02''" "''abc''" "''loc_history_1''"
      "\<lparr>code = 100, comment = 20, blank = 10\<rparr>" zero_metric] 10
  have 11: "day_row demo_world ''2024-01-02'' =
     Some \<lparr>frontend = \<lparr>code = 100, comment = 20, blank = 10\<rparr>, backend = zero_metric,
           total_code = 100\<rparr>" by (simp add: zero_metric_def)
  have 12: "archive (backend_env demo_snapshot) = Inr \<lparr>returncode = 128, stdout = []\<rparr>"
    by (simp add: demo_snapshot_def)
  from t [of _ _ _ _ _ _ _ _ _ _ "backend_env demo_snapshot" "\<lparr>returncode = 128, stdout = []\<rparr>"] 12
  have 13: "extract_subtree (backend_env demo_snapshot) = Inr zero_metric" by simp
  have 14: "archive no_cloc_subtree = Inr \<lparr>returncode = 0, stdout = ''tar''\<rparr>"
      "mkdir_ok no_cloc_subtree" "tar_ok no_cloc_subtree" "cloc no_cloc_subtree = Inl OSError"
    by (simp_all add: no_cloc_subtree_def demo_subtree_def)
  from t [of _ _ _ _ _ _ _ _ _ _ no_cloc_subtree "\<lparr>returncode = 0, stdout = ''tar''\<rparr>"] 14
  have 15: "extract_subtree no_cloc_subtree = Inr zero_metric" by simp
  from 1 2 4 5 6 7 8 9 11 13 15 show ?thesis unfolding list_all_iff by blast
qed

text \<open>
  C5 as stated fails: the first day is enumerated and resolves to no commit, and the
  ledger receives no row for it, degraded or not; the loop goes on to the second day.
\<close>

theorem unresolved_day_gets_no_row_counterexample:
  "\<not> (''2024-01-01'' \<in> set (map fst (appended (main False gap_world None {})))) \<and>
   get_all_dates gap_world = Inr [''2024-01-01'', ''2024-01-02''] \<and>
   get_commit_for_date gap_world ''2024-01-01'' = Inr None \<and>
   map fst (appended (main False gap_world None {})) = [''2024-01-02'']"
  by code_simp

section \<open>The per-commit step: absent paths and cleanup\<close>

text \<open>
  C8 (subtree absence). A tracked path that the commit does not have gets the all-zero
  metric and raises nothing: the row of the commit, when the step assembles one, holds
  exactly zero code, comment and blank lines for it, and absence of both paths alone
  still yields a row. \<open>run_cloc\<close> on a directory that does not exist is all-zero too.
\<close>

theorem absent_subtree_is_zero:
  "(subtree_absent e \<longrightarrow> extract_subtree e = Inr zero_metric) \<and>
   (subtree_absent (frontend_env s) \<and> fst (collect_stats_for_commit s t0) = Some st \<longrightarrow>
      frontend st = \<lparr>code = 0, comment = 0, blank = 0\<rparr>) \<and>
   (subtree_absent (backend_env s) \<and> fst (collect_stats_for_commit s t0) = Some st \<longrightarrow>
      backend st = \<lparr>code = 0, comment = 0, blank = 0\<rparr>) \<and>
   (subtree_absent (frontend_env s) \<and> mkdtemp s = Inr d \<and>
      extract_subtree (backend_env s) = Inr b \<longrightarrow>
      fst (collect_stats_for_commit s t0) =
        Some \<lparr>frontend = zero_metric, backend = b, total_code = code b\<rparr>) \<and>
   (subtree_absent (backend_env s) \<and> mkdtemp s = Inr d \<and>
      extract_subtree (frontend_env s) = Inr f \<longrightarrow>
      fst (collect_stats_for_commit s t0) =
        Some \<lparr>frontend = f, backend = zero_metric, total_code = code f\<rparr>) \<and>
   run_cloc False p = zero_metric"
proof (intro conjI impI)
  assume "subtree_absent e"
  then show "extract_subtree e = Inr zero_metric" by (rule extract_subtree_absent)
next
  assume "subtree_absent (frontend_env s) \<and> fst (collect_stats_for_commit s t0) = Some st"
  then show "frontend st = \<lparr>code = 0, comment = 0, blank = 0\<rparr>"
    using extract_subtree_absent [of "frontend_env s"]
    by (auto simp add: collect_stats_result collect_stats_try_def zero_metric_def
        split: sum.splits)
next
  assume "subtree_absent (backend_env s) \<and> fst (collect_stats_for_commit s t0) = Some st"
  then show "backend st = \<lparr>code = 0, comment = 0, blank = 0\<rparr>"
    using extract_subtree_absent [of "backend_env s"]
    by (auto simp add: collect_stats_result collect_stats_try_def zero_metric_def
        split: sum.splits)
next
  assume "subtree_absent (frontend_env s) \<and> mkdtemp s = Inr d \<and>
      extract_subtree (backend_env s) = Inr b"
  then show "fst (collect_stats_for_commit s t0) =
        Some \<lparr>frontend = zero_metric, backend = b, total_code = code b\<rparr>"
    using extract_subtree_absent [of "frontend_env s"]
    by (simp add: collect_stats_result collect_stats_try_def zero_metric_def)
next
  assume "subtree_absent (backend_env s) \<and> mkdtemp s = Inr d \<and>
      extract_subtree (frontend_env s) = Inr f"
  then show "fst (collect_stats_for_commit s t0) =
        Some \<lparr>frontend = f, backend = zero_metric, total_code = code f\<rparr>"
    using extract_subtree_absent [of "backend_env s"]
    by (simp add: collect_stats_result collect_stats_try_def zero_metric_def)
next
  show "run_cloc False p = zero_metric" by (simp add: run_cloc_def)
qed

theorem absent_subtree_is_zero_witness:
  "subtree_absent (backend_env demo_snapshot) \<and>
   subtree_absent unpacked_empty_subtree \<and>
   extract_subtree unpacked_empty_subtree = Inr zero_metric \<and>
   fst (collect_stats_for_commit demo_snapshot {}) =
     Some \<lparr>frontend = \<lparr>code = 100, comment = 20, blank = 10\<rparr>, backend = zero_metric,
           total_code = 100\<rparr> \<and>
   backend (the (fst (collect_stats_for_commit demo_snapshot {})))
     = \<lparr>code = 0, comment = 0, blank = 0\<rparr>"
proof -
  note t = absent_subtree_is_zero
  have 1: "subtree_absent (backend_env demo_snapshot)" "subtree_absent unpacked_empty_subtree"
    by code_simp+
  have 2: "mkdtemp demo_snapshot = Inr ''loc_history_1''"
    "extract_subtree (frontend_env demo_snapshot) = Inr \<lparr>code = 100, comment = 20, blank = 10\<rparr>"
    by code_simp+
  from t [of unpacked_empty_subtree] 1
  have 3: "extract_subtree unpacked_empty_subtree = Inr zero_metric" by blast
  from t [of _ demo_snapshot "{}" _ "''loc_history_1''" _ "\<lparr>code = 100, comment = 20, blank = 10\<rparr>"] 1 2
  have 4: "fst (collect_stats_for_commit demo_snapshot {}) =
     Some \<lparr>frontend = \<lparr>code = 100, comment = 20, blank = 10\<rparr>, backend = zero_metric,
           total_code = 100\<rparr>" by simp
  from t [of _ demo_snapshot "{}" "\<lparr>frontend = \<lparr>code = 100, comment = 20, blank = 10\<rparr>,
      backend = zero_metric, total_code = 100\<rparr>"] 1 4
  have "backend \<lparr>frontend = \<lparr>code = 100, comment = 20, blank = 10\<rparr>,
      backend = zero_metric, total_code = 100\<rparr> = \<lparr>code = 0, comment = 0, blank = 0\<rparr>"
    by blast
  with 4 have 5: "backend (the (fst (collect_stats_for_commit demo_snapshot {})))
     = \<lparr>code = 0, comment = 0, blank = 0\<rparr>" by simp
  from 1 3 4 5 show ?thesis by blast
qed

text \<open>
  C9, as the code has it. Whatever happens in the step (a normal return, a subtree that
  is not extracted, an exception anywhere after the location exists), the step ends by
  attempting to remove the location that \<open>mkdtemp\<close> made, with the errors of the removal
  ignored: when the removal succeeds, the location is gone on return and no other
  location is touched; when it fails, the location is still there on return. When
  \<open>mkdtemp\<close> itself raises, no location was made and none is left. The result of the step
  never depends on the removal.
\<close>

theorem temporary_location_removed:
  "(mkdtemp s = Inr d \<and> rmtree_ok s \<longrightarrow>
      d \<notin> snd (collect_stats_for_commit s t0) \<and>
      snd (collect_stats_for_commit s t0) = t0 - {d}) \<and>
   (mkdtemp s = Inr d \<and> \<not> rmtree_ok s \<longrightarrow>
      d \<in> snd (collect_stats_for_commit s t0) \<and>
      snd (collect_stats_for_commit s t0) = insert d t0) \<and>
   (mkdtemp s = Inl x \<longrightarrow> snd (collect_stats_for_commit s t0) = t0) \<and>
   fst (collect_stats_for_commit (s\<lparr>rmtree_ok := k\<rparr>) t0) = fst (collect_stats_for_commit s t0)"
proof (intro conjI impI)
  assume "mkdtemp s = Inr d \<and> rmtree_ok s"
  then show "d \<notin> snd (collect_stats_for_commit s t0)"
    and "snd (collect_stats_for_commit s t0) = t0 - {d}"
    by (auto simp add: collect_stats_for_commit_def Let_def)
next
  assume "mkdtemp s = Inr d \<and> \<not> rmtree_ok s"
  then show "d \<in> snd (collect_stats_for_commit s t0)"
    and "snd (collect_stats_for_commit s t0) = insert d t0"
    by (auto simp add: collect_stats_for_commit_def Let_def)
next
  assume "mkdtemp s = Inl x"
  then show "snd (collect_stats_for_commit s t0) = t0"
    by (simp add: collect_stats_for_commit_def)
next
  have "collect_stats_try (s\<lparr>rmtree_ok := k\<rparr>) = collect_stats_try s"
    by (simp add: collect_stats_try_def split: sum.splits)
  then show "fst (collect_stats_for_commit (s\<lparr>rmtree_ok := k\<rparr>) t0) = fst (collect_stats_for_commit s t0)"
    by (simp add: collect_stats_result split: sum.splits)
qed

theorem temporary_location_removed_witness:
  "mkdtemp demo_snapshot = Inr ''loc_history_1'' \<and> rmtree_ok demo_snapshot \<and>
   fst (collect_stats_for_commit demo_snapshot {''loc_history_0''}) \<noteq> None \<and>
   ''loc_history_1'' \<notin> snd (collect_stats_for_commit demo_snapshot {''loc_history_0''}) \<and>
   snd (collect_stats_for_commit demo_snapshot {''loc_history_0''}) = {''loc_history_0''} \<and>
   mkdtemp mkdir_fails_snapshot = Inr ''loc_history_1'' \<and> rmtree_ok mkdir_fails_snapshot \<and>
   fst (collect_stats_for_commit mkdir_fails_snapshot {}) = None \<and>
   ''loc_history_1'' \<notin> snd (collect_stats_for_commit mkdir_fails_snapshot {}) \<and>
   mkdtemp leaky_snapshot = Inr ''loc_history_1'' \<and> \<not> rmtree_ok leaky_snapshot \<and>
   snd (collect_stats_for_commit leaky_snapshot {}) = {''loc_history_1''} \<and>
   fst (collect_stats_for_commit leaky_snapshot {}) = fst (collect_stats_for_commit demo_snapshot {}) \<and>
   snd (collect_stats_for_commit (demo_snapshot\<lparr>mkdtemp := Inl OSError\<rparr>) {}) = {}"
proof -
  note t = temporary_location_removed
  have 1: "mkdtemp demo_snapshot = Inr ''loc_history_1''" "rmtree_ok demo_snapshot"
    "mkdtemp mkdir_fails_snapshot = Inr ''loc_history_1''" "rmtree_ok mkdir_fails_snapshot"
    "mkdtemp (demo_snapshot\<lparr>mkdtemp := Inl OSError\<rparr>) = Inl OSError"
    by (simp_all add: demo_snapshot_def mkdir_fails_snapshot_def)
  have 2: "fst (collect_stats_for_commit demo_snapshot {''loc_history_0''}) \<noteq> None"
    "fst (collect_stats_for_commit mkdir_fails_snapshot {}) = None"
    by code_simp+
  from t [of demo_snapshot "''loc_history_1''" "{''loc_history_0''}"] 1
  have 3: "''loc_history_1'' \<notin> snd (collect_stats_for_commit demo_snapshot {''loc_history_0''}) \<and>
   snd (collect_stats_for_commit demo_snapshot {''loc_history_0''}) = {''loc_history_0''}"
    by simp
  from t [of mkdir_fails_snapshot "''loc_history_1''" "{}"] 1
  have 4: "''loc_history_1'' \<notin> snd (collect_stats_for_commit mkdir_fails_snapshot {})" by simp
  from t [of "demo_snapshot\<lparr>mkdtemp := Inl OSError\<rparr>" _ "{}" OSError] 1
  have 5: "snd (collect_stats_for_commit (demo_snapshot\<lparr>mkdtemp := Inl OSError\<rparr>) {}) = {}"
    by simp
  have 6: "mkdtemp leaky_snapshot = Inr ''loc_history_1''" "\<not> rmtree_ok leaky_snapshot"
    by (simp_all add: leaky_snapshot_def demo_snapshot_def)
  from t [of leaky_snapshot "''loc_history_1''" "{}"] 6
  have 7: "snd (collect_stats_for_commit leaky_snapshot {}) = {''loc_history_1''}" by simp
  from t [of demo_snapshot _ "{}" _ False]
  have 8: "fst (collect_stats_for_commit leaky_snapshot {}) = fst (collect_stats_for_commit demo_snapshot {})"
    by (simp add: leaky_snapshot_def)
  from 1 2 3 4 5 6 7 8 show ?thesis by blast
qed

text \<open>
  C9 as stated fails: the step returns normally with its statistics, the removal of the
  location fails and its error is ignored, and the location is still there when control
  is back in the driver.
\<close>

theorem location_left_behind_counterexample:
  "\<not> (''loc_history_1'' \<notin> snd (collect_stats_for_commit leaky_snapshot {})) \<and>
   mkdtemp leaky_snapshot = Inr ''loc_history_1'' \<and>
   fst (collect_stats_for_commit leaky_snapshot {}) \<noteq> None \<and>
   snd (collect_stats_for_commit leaky_snapshot {}) = {''loc_history_1''}"
  by code_simp

section \<open>Lines of a text file\<close>

lemma universal_newlines_Nil_iff: "(universal_newlines a = []) = (a = [])"
  by (induction a rule: universal_newlines.induct) auto

lemma universal_newlines_append:
  "b = [] \<or> hd b \<noteq> LF \<Longrightarrow>
     universal_newlines (a @ b) = universal_newlines a @ universal_newlines b"
proof (induction a rule: universal_newlines.induct)
  case 1
  show ?case by simp
next
  case (2 c)
  then show ?case by (cases b) auto
next
  case (3 c d cs)
  then show ?case by auto
qed

lemma universal_newlines_plain: "CR \<notin> set a \<Longrightarrow> universal_newlines a = a"
  by (induction a rule: universal_newlines.induct) auto

lemma universal_newlines_last:
  "a \<noteq> [] \<Longrightarrow> last a = LF \<or> last a = CR \<Longrightarrow> last (universal_newlines a) = LF"
  by (induction a rule: universal_newlines.induct) (auto simp add: universal_newlines_Nil_iff)

lemma keepends_Nil_iff: "(keepends a = []) = (a = [])"
  by (cases a) (auto split: list.splits)

lemma keepends_append:
  "a = [] \<or> last a = LF \<Longrightarrow> keepends (a @ b) = keepends a @ keepends b"
proof (induction a)
  case Nil
  show ?case by simp
next
  case (Cons c cs)
  show ?case
  proof (cases "cs = []")
    case True
    with Cons.prems show ?thesis by simp
  next
    case False
    with Cons.prems have "last cs = LF" by simp
    then have ih: "keepends (cs @ b) = keepends cs @ keepends b" using Cons.IH by simp
    from False obtain l ls where "keepends cs = l # ls"
      by (cases "keepends cs") (simp_all add: keepends_Nil_iff)
    then show ?thesis by (simp add: ih)
  qed
qed

lemma keepends_one_line: "LF \<notin> set body \<Longrightarrow> keepends (body @ [LF]) = [body @ [LF]]"
  by (induction body) auto

lemma readlines_append_row:
  assumes c: "complete_lines c" and cr: "CR \<notin> set body" and lf: "LF \<notin> set body"
  shows "readlines (c @ body @ [CR, LF]) = readlines c @ [body @ [LF]]"
proof -
  have hd: "body @ [CR, LF] = [] \<or> hd (body @ [CR, LF]) \<noteq> LF"
    using lf by (cases body) auto
  have row: "universal_newlines (body @ [CR, LF]) = body @ [LF]"
    using universal_newlines_append [of "[CR, LF]" body] cr
    by (simp add: universal_newlines_plain)
  have u: "universal_newlines (c @ body @ [CR, LF]) = universal_newlines c @ body @ [LF]"
    using universal_newlines_append [OF hd, of c] row by simp
  have "universal_newlines c = [] \<or> last (universal_newlines c) = LF"
    using c universal_newlines_last [of c]
    by (cases "c = []") (auto simp add: complete_lines_def)
  then show ?thesis
    unfolding readlines_def u using keepends_append keepends_one_line [OF lf] by simp
qed

lemma complete_lines_append_row: "complete_lines (c @ body @ [CR, LF])"
  by (simp add: complete_lines_def)

section \<open>Characters of a row\<close>

lemma ascii_digit_code: "is_ascii_digit c = (48 \<le> (of_char c :: nat) \<and> (of_char c :: nat) \<le> 57)"
  by (simp add: is_ascii_digit_def less_eq_char_def)

lemma ascii_digit_plain:
  "is_ascii_digit c \<Longrightarrow>
     c \<noteq> CHR '','' \<and> c \<noteq> CHR 0x22 \<and> c \<noteq> CR \<and> c \<noteq> LF \<and> \<not> py_isspace c"
  by (auto simp add: ascii_digit_code py_isspace_def)

lemma py_str_digits: "c \<in> set (py_str n) \<Longrightarrow> is_ascii_digit c"
proof (induction n arbitrary: c rule: py_str.induct)
  case (1 n)
  have d: "is_ascii_digit (char_of (48 + k))" if "k < 10" for k :: nat
    using that by (simp add: ascii_digit_code)
  show ?case
  proof (cases "n < 10")
    case True
    with "1.prems" d [of n] show ?thesis by (simp add: py_str.simps [of n])
  next
    case False
    with "1.prems" have "c \<in> set (py_str (n div 10)) \<or> c = char_of (48 + n mod 10)"
      by (auto simp add: py_str.simps [of n])
    then show ?thesis using "1.IH" [OF False] d [of "n mod 10"] by auto
  qed
qed

lemma is_day_chars: "is_day d \<Longrightarrow> c \<in> set d \<Longrightarrow> is_ascii_digit c \<or> c = CHR ''-''"
proof -
  assume d: "is_day d" and c: "c \<in> set d"
  from day_parts [OF d] c
  have "c \<in> set (take 4 d) \<or> c = CHR ''-'' \<or> c \<in> set (take 2 (drop 5 d)) \<or> c \<in> set (drop 8 d)"
    by (metis Un_iff set_ConsD set_append)
  then show ?thesis using d by (auto simp add: is_day_def list_all_iff)
qed

lemma is_day_hd: "is_day d \<Longrightarrow> d \<noteq> [] \<and> is_ascii_digit (hd d)"
  by (cases d) (auto simp add: is_day_def)

lemma csv_field_plain:
  "\<forall>c \<in> set s. c \<noteq> CHR '','' \<and> c \<noteq> CHR 0x22 \<and> c \<noteq> CR \<and> c \<noteq> LF \<Longrightarrow> csv_field s = s"
  by (auto simp add: csv_field_def)

lemma csv_field_py_str: "csv_field (py_str n) = py_str n"
  by (rule csv_field_plain) (use py_str_digits ascii_digit_plain in blast)

lemma csv_field_day: "is_day d \<Longrightarrow> csv_field d = d"
proof (rule csv_field_plain, rule ballI)
  fix c assume "is_day d" "c \<in> set d"
  then have "is_ascii_digit c \<or> c = CHR ''-''" by (rule is_day_chars)
  then show "c \<noteq> CHR '','' \<and> c \<noteq> CHR 0x22 \<and> c \<noteq> CR \<and> c \<noteq> LF"
    using ascii_digit_plain [of c] by auto
qed

lemma join_chars: "c \<in> set (join sep xs) \<Longrightarrow> c = sep \<or> (\<exists>x \<in> set xs. c \<in> set x)"
  by (induction sep xs rule: join.induct) auto

section \<open>Rows read back from the ledger\<close>

lemma split_on_nonempty: "split_on sep s \<noteq> []"
  by (cases s) (auto split: list.splits)

lemma split_on_hd: "sep \<notin> set a \<Longrightarrow> hd (split_on sep (a @ sep # rest)) = a"
  by (induction a) (auto simp add: split_on_nonempty split: list.splits)

lemma py_strip_keeps_prefix:
  assumes "a \<noteq> []" and "\<not> py_isspace (hd a)" and "\<not> py_isspace x"
  shows "py_strip (a @ x # rest) = a @ x # rev (dropWhile py_isspace (rev rest))"
proof -
  from assms(1,2) have "dropWhile py_isspace (a @ x # rest) = a @ x # rest"
    by (cases a) simp_all
  moreover have "dropWhile py_isspace (rev rest @ x # rev a)
      = dropWhile py_isspace (rev rest) @ x # rev a"
    using assms(3) by (rule dropWhile_append3)
  ultimately show ?thesis by (simp add: py_strip_def)
qed

lemma row_day_prefix:
  assumes "a \<noteq> []" and "\<not> py_isspace (hd a)" and "CHR '','' \<notin> set a"
  shows "row_day (a @ CHR '','' # rest) = a"
proof -
  have "\<not> py_isspace CHR '',''" by (simp add: py_isspace_def)
  from py_strip_keeps_prefix [OF assms(1,2) this] show ?thesis
    by (simp add: row_day_def split_on_hd [OF assms(3)])
qed

lemma row_day_of_day: "is_day d \<Longrightarrow> row_day (d @ CHR '','' # rest) = d"
proof (rule row_day_prefix)
  assume d: "is_day d"
  show "d \<noteq> []" using is_day_hd [OF d] by simp
  show "\<not> py_isspace (hd d)" using is_day_hd [OF d] ascii_digit_plain by blast
  show "CHR '','' \<notin> set d" using is_day_chars [OF d] ascii_digit_plain by fastforce
qed

text \<open>The text of one row: the day, a comma, and a rest without line breaks.\<close>

lemma writerow_row:
  assumes d: "is_day d"
  shows "\<exists>rest. writerow (row_fields d st) = (d @ CHR '','' # rest) @ [CR, LF] \<and>
           CR \<notin> set (d @ CHR '','' # rest) \<and> LF \<notin> set (d @ CHR '','' # rest)"
proof -
  let ?nums = "[py_str (code (frontend st)), py_str (comment (frontend st)),
      py_str (blank (frontend st)), py_str (code (backend st)), py_str (comment (backend st)),
      py_str (blank (backend st)), py_str (total_code st)]"
  let ?rest = "join CHR '','' ?nums"
  have w: "writerow (row_fields d st) = (d @ CHR '','' # ?rest) @ [CR, LF]"
    by (simp add: writerow_def row_fields_def csv_field_py_str csv_field_day [OF d])
  have "c \<noteq> CR \<and> c \<noteq> LF" if "c \<in> set ?rest" for c
  proof -
    from join_chars [OF that] have "c = CHR '','' \<or> is_ascii_digit c"
      using py_str_digits by auto
    then show ?thesis using ascii_digit_plain [of c] by auto
  qed
  moreover have "c \<noteq> CR \<and> c \<noteq> LF" if "c \<in> set d" for c
    using is_day_chars [OF d that] ascii_digit_plain [of c] by auto
  ultimately have "CR \<notin> set (d @ CHR '','' # ?rest) \<and> LF \<notin> set (d @ CHR '','' # ?rest)"
    by auto
  with w show ?thesis by blast
qed

lemma readlines_rows:
  "complete_lines c \<Longrightarrow> \<forall>(d, st) \<in> set rs. is_day d \<Longrightarrow>
     \<exists>ls. readlines (c @ rows_text rs) = readlines c @ ls \<and> map row_day ls = map fst rs \<and>
          complete_lines (c @ rows_text rs)"
proof (induction rs arbitrary: c)
  case Nil
  then show ?case by (simp add: rows_text_def)
next
  case (Cons r rs)
  obtain d st where r: "r = (d, st)" by (cases r)
  with Cons.prems have d: "is_day d" and rest: "\<forall>(d, st) \<in> set rs. is_day d" by simp_all
  from writerow_row [OF d, of st] obtain tail where
    w: "writerow (row_fields d st) = (d @ CHR '','' # tail) @ [CR, LF]"
    and cr: "CR \<notin> set (d @ CHR '','' # tail)" and lf: "LF \<notin> set (d @ CHR '','' # tail)"
    by blast
  let ?c = "c @ writerow (row_fields d st)"
  have one: "readlines ?c = readlines c @ [(d @ CHR '','' # tail) @ [LF]]"
    unfolding w using readlines_append_row [OF Cons.prems(1) cr lf] by simp
  have compl: "complete_lines ?c"
    unfolding w using complete_lines_append_row [of c "d @ CHR '','' # tail"] by simp
  from Cons.IH [OF compl rest] obtain ls where
    ls: "readlines (?c @ rows_text rs) = readlines ?c @ ls" "map row_day ls = map fst rs"
      "complete_lines (?c @ rows_text rs)" by blast
  have split: "c @ rows_text (r # rs) = ?c @ rows_text rs"
    by (simp add: rows_text_def r)
  have day: "row_day ((d @ CHR '','' # tail) @ [LF]) = d"
    using row_day_of_day [OF d, of "tail @ [LF]"] by simp
  show ?case
    unfolding split using ls one day r
    by (intro exI [of _ "((d @ CHR '','' # tail) @ [LF]) # ls"]) simp
qed

section \<open>The last day and the days to collect\<close>

lemma readlines_Nil_iff: "(readlines c = []) = (c = [])"
  by (simp add: readlines_def keepends_Nil_iff universal_newlines_Nil_iff)

lemma ledger_days_rows:
  assumes "complete_lines c" and "\<forall>(d, st) \<in> set rs. is_day d"
  shows "ledger_days (c @ rows_text rs) =
           (if c = [] then tl (map fst rs) else ledger_days c @ map fst rs)"
proof -
  from readlines_rows [OF assms] obtain ls where
    ls: "readlines (c @ rows_text rs) = readlines c @ ls" "map row_day ls = map fst rs"
    by blast
  show ?thesis
  proof (cases "c = []")
    case True
    then have "readlines c = []" by (simp add: readlines_Nil_iff)
    with ls True show ?thesis by (simp add: ledger_days_def map_tl)
  next
    case False
    then have "readlines c \<noteq> []" by (simp add: readlines_Nil_iff)
    with ls False show ?thesis by (simp add: ledger_days_def)
  qed
qed

lemma last_collected_cases:
  "ledger_days c = [] \<and> get_last_collected_date (Some c) = None \<or>
   ledger_days c \<noteq> [] \<and>
     (get_last_collected_date (Some c) = Some (last (ledger_days c)) \<or>
      get_last_collected_date (Some c) = None \<and> last (ledger_days c) = [])"
proof (cases "length (readlines c) > 1")
  case False
  then have "tl (readlines c) = []" by (cases "readlines c") simp_all
  with False show ?thesis by (simp add: ledger_days_def get_last_collected_date_def)
next
  case True
  then have ne: "tl (readlines c) \<noteq> []" by (cases "readlines c") auto
  then have l: "last (readlines c) = last (tl (readlines c))"
    by (cases "readlines c") auto
  have d: "last (ledger_days c) = row_day (last (readlines c))"
    using ne by (simp add: ledger_days_def last_map l)
  show ?thesis
  proof (cases "py_strip (last (readlines c)) = []")
    case True
    with d have "last (ledger_days c) = []" by (simp add: row_day_def)
    with True \<open>length (readlines c) > 1\<close> ne show ?thesis
      by (simp add: get_last_collected_date_def ledger_days_def)
  next
    case False
    with d \<open>length (readlines c) > 1\<close> ne show ?thesis
      by (simp add: get_last_collected_date_def ledger_days_def row_day_def)
  qed
qed

lemma dates_to_collect_after_last:
  assumes "ledger_days c \<noteq> []" and "[] \<notin> set ds"
    and "d \<in> set (dates_to_collect (get_last_collected_date (Some c)) ds)"
  shows "last (ledger_days c) < d"
proof -
  from assms(2,3) have ne: "d \<noteq> []" by (auto simp add: dates_to_collect_def)
  then have nil: "[] < d" by (cases d) simp_all
  from last_collected_cases [of c] assms(1)
  consider "get_last_collected_date (Some c) = Some (last (ledger_days c))"
    | "get_last_collected_date (Some c) = None" "last (ledger_days c) = []" by auto
  then show ?thesis
  proof cases
    case 1
    with assms(3) nil show ?thesis by (auto simp add: dates_to_collect_def)
  next
    case 2
    with nil show ?thesis by simp
  qed
qed

lemma strict_sorted_le_last:
  "sorted_wrt (<) xs \<Longrightarrow> x \<in> set xs \<Longrightarrow> x \<le> (last xs :: 'a :: linorder)"
  by (induction xs) (auto simp add: less_imp_le)

lemma strict_sorted_append_after:
  fixes xs ys :: "'a :: linorder list"
  assumes "sorted_wrt (<) xs" and "sorted_wrt (<) ys" and "\<forall>y \<in> set ys. last xs < y"
  shows "sorted_wrt (<) (xs @ ys)"
  unfolding sorted_wrt_append
  using assms strict_sorted_le_last [OF assms(1)] by (auto intro: le_less_trans)

lemma new_rows_sorted:
  "sorted_wrt (<) ds \<Longrightarrow> sorted_wrt (<) (map fst (new_rows w ds))"
  unfolding map_fst_new_rows reached_def
  by (intro sorted_wrt_filter sorted_wrt_takeWhile)

lemma dates_to_collect_sorted:
  "sorted_wrt (<) ds \<Longrightarrow> sorted_wrt (<) (dates_to_collect l ds)"
  unfolding dates_to_collect_def by (rule sorted_wrt_filter)

lemma dates_to_collect_subset: "d \<in> set (dates_to_collect l ds) \<Longrightarrow> d \<in> set ds"
  by (simp add: dates_to_collect_def)

lemma header_ledger:
  "complete_lines (writerow header) \<and> writerow header \<noteq> [] \<and> ledger_days (writerow header) = []"
  by code_simp

section \<open>Monotonic days\<close>

lemma increasing_after_rows:
  assumes ne: "c \<noteq> []" and c: "complete_lines c" and s: "sorted_wrt (<) (ledger_days c)"
    and days: "\<forall>(d, st) \<in> set rs. is_day d"
    and new: "sorted_wrt (<) (map fst rs)"
    and after: "ledger_days c \<noteq> [] \<longrightarrow> (\<forall>y \<in> set (map fst rs). last (ledger_days c) < y)"
  shows "increasing_ledger (Some (c @ rows_text rs))"
proof -
  from readlines_rows [OF c days] have compl: "complete_lines (c @ rows_text rs)" by blast
  have "sorted_wrt (<) (ledger_days c @ map fst rs)"
  proof (cases "ledger_days c = []")
    case True
    with new show ?thesis by simp
  next
    case False
    with after have "\<forall>y \<in> set (map fst rs). last (ledger_days c) < y" by simp
    with s new show ?thesis by (rule strict_sorted_append_after)
  qed
  then have "sorted_wrt (<) (ledger_days (c @ rows_text rs))"
    by (simp add: ledger_days_rows [OF c days] ne)
  with compl ne show ?thesis by (simp add: increasing_ledger_def)
qed

text \<open>
  C2 (monotonic keys). A ledger (a header and complete lines) whose days increase
  strictly, or an absent ledger, stays one after any run, forced or not, whatever
  happens in the run, when the enumerated days have the format \<open>YYYY-MM-DD\<close>: in the
  resulting file every row has a day strictly greater than the day of the row before it.
\<close>

theorem monotonic_days_preserved:
  "increasing_ledger lf \<Longrightarrow>
   (case get_all_dates w of Inl e \<Rightarrow> True | Inr ds \<Rightarrow> list_all is_day ds) \<Longrightarrow>
   increasing_ledger (ledger (main force_full w lf t0))"
proof -
  assume inc: "increasing_ledger lf"
    and fmt: "case get_all_dates w of Inl e \<Rightarrow> True | Inr ds \<Rightarrow> list_all is_day ds"
  let ?c = "case lf of None \<Rightarrow> writerow header
            | Some old \<Rightarrow> if force_full then writerow header else old"
  let ?l = "if lf = None \<or> force_full then None else get_last_collected_date lf"
  let ?rs = "appended (main force_full w lf t0)"
  have led: "ledger (main force_full w lf t0) = Some (?c @ rows_text ?rs)"
    by (rule main_ledger)
  have fresh: "?c = writerow header" if "lf = None \<or> force_full"
    using that by (auto split: option.splits)
  have kept: "?c = old \<and> ?l = get_last_collected_date (Some old)"
    if "lf = Some old" "\<not> force_full" for old
    using that by simp
  have ne: "?c \<noteq> []" and c: "complete_lines ?c" and s: "sorted_wrt (<) (ledger_days ?c)"
    using inc header_ledger
    by (auto simp add: increasing_ledger_def split: option.splits)
  have rows: "(\<forall>(d, st) \<in> set ?rs. is_day d) \<and> sorted_wrt (<) (map fst ?rs) \<and>
      (ledger_days ?c \<noteq> [] \<longrightarrow> (\<forall>y \<in> set (map fst ?rs). last (ledger_days ?c) < y))"
  proof (cases "get_all_dates w")
    case (Inl e)
    then have "?rs = []" by (rule main_appended_raise)
    then show ?thesis by simp
  next
    case (Inr ds)
    with fmt have isd: "\<forall>d \<in> set ds. is_day d" by (simp add: list_all_iff)
    from get_all_dates_sorted [OF Inr] have sds: "sorted_wrt (<) ds" and ne: "[] \<notin> set ds"
      by simp_all
    have app: "?rs = new_rows w (dates_to_collect ?l ds)"
      using main_appended [OF Inr] by simp
    have sub: "y \<in> set (dates_to_collect ?l ds)" if "y \<in> set (map fst ?rs)" for y
      using that new_rows_days unfolding app by fastforce
    have 1: "\<forall>(d, st) \<in> set ?rs. is_day d"
      using sub dates_to_collect_subset isd by fastforce
    have 2: "sorted_wrt (<) (map fst ?rs)"
      unfolding app by (intro new_rows_sorted dates_to_collect_sorted sds)
    have 3: "\<forall>y \<in> set (map fst ?rs). last (ledger_days ?c) < y" if old: "ledger_days ?c \<noteq> []"
    proof
      fix y assume y: "y \<in> set (map fst ?rs)"
      have nf: "\<not> (lf = None \<or> force_full)"
      proof
        assume "lf = None \<or> force_full"
        from fresh [OF this] have "ledger_days ?c = ledger_days (writerow header)"
          by (rule arg_cong)
        with old header_ledger show False by simp
      qed
      then obtain old where lf: "lf = Some old" by (cases lf) auto
      from kept [OF lf] nf have k: "?c = old" "?l = get_last_collected_date (Some old)"
        by simp_all
      from sub [OF y] have "y \<in> set (dates_to_collect (get_last_collected_date (Some old)) ds)"
        unfolding k(2) .
      with dates_to_collect_after_last [of old ds y] ne that k(1)
      show "last (ledger_days ?c) < y" by simp
    qed
    from 1 2 3 show ?thesis by blast
  qed
  from rows have "increasing_ledger (Some (?c @ rows_text ?rs))"
    by (intro increasing_after_rows ne c s) blast+
  then show ?thesis by (simp only: led)
qed

theorem monotonic_days_preserved_witness:
  "increasing_ledger (Some demo_ledger) \<and>
   ledger_days demo_ledger = [''2024-01-01''] \<and>
   get_all_dates demo_world = Inr [''2024-01-01'', ''2024-01-02''] \<and>
   list_all is_day [''2024-01-01'', ''2024-01-02''] \<and>
   increasing_ledger (ledger (main False demo_world (Some demo_ledger) {})) \<and>
   ledger_days (the (ledger (main False demo_world (Some demo_ledger) {})))
     = [''2024-01-01'', ''2024-01-02''] \<and>
   increasing_ledger (ledger (main True demo_world (Some demo_ledger) {}))"
proof -
  have 1: "increasing_ledger (Some demo_ledger)" by code_simp
  have 2: "ledger_days demo_ledger = [''2024-01-01'']" by code_simp
  have 3: "get_all_dates demo_world = Inr [''2024-01-01'', ''2024-01-02'']" by code_simp
  have 4: "list_all is_day [''2024-01-01'', ''2024-01-02'']" by code_simp
  have 5: "case get_all_dates demo_world of Inl e \<Rightarrow> True | Inr ds \<Rightarrow> list_all is_day ds"
    using 3 4 by simp
  have 6: "ledger_days (the (ledger (main False demo_world (Some demo_ledger) {})))
     = [''2024-01-01'', ''2024-01-02'']" by code_simp
  note t = monotonic_days_preserved [OF 1 5]
  from 1 2 3 4 6 t [of False "{}"] t [of True "{}"] show ?thesis by blast
qed

section \<open>Resume correctness\<close>

text \<open>
  C1 (resume correctness). When the last row of the ledger has day \<open>D\<close>, a run without
  \<open>--full\<close> appends rows only for enumerated days strictly greater than \<open>D\<close>, whatever
  the history holds. When the ledger has no last row (it is absent, empty or holds the
  header only), the days that receive a row are all the enumerated days that are reached
  and yield a row; they are all the enumerated days when every day yields one.
\<close>

theorem resume_after_last_collected_day:
  "(lf = Some c \<and> ledger_days c \<noteq> [] \<and> last (ledger_days c) = D \<longrightarrow>
      (\<forall>(d, st) \<in> set (appended (main False w lf t0)).
         D < d \<and> (\<exists>ds. get_all_dates w = Inr ds \<and> d \<in> set ds))) \<and>
   ((lf = None \<or> lf = Some c \<and> ledger_days c = []) \<and> get_all_dates w = Inr ds \<longrightarrow>
      map fst (appended (main False w lf t0))
        = filter (\<lambda>d. day_row w d \<noteq> None) (reached w ds) \<and>
      ((\<forall>d \<in> set ds. day_row w d \<noteq> None) \<longrightarrow>
         map fst (appended (main False w lf t0)) = ds))"
proof (intro conjI impI)
  assume a: "lf = Some c \<and> ledger_days c \<noteq> [] \<and> last (ledger_days c) = D"
  show "\<forall>(d, st) \<in> set (appended (main False w lf t0)).
         D < d \<and> (\<exists>ds. get_all_dates w = Inr ds \<and> d \<in> set ds)"
  proof (cases "get_all_dates w")
    case (Inl e)
    then show ?thesis by (simp add: main_appended_raise)
  next
    case (Inr all_dates)
    have app: "appended (main False w lf t0)
        = new_rows w (dates_to_collect (get_last_collected_date (Some c)) all_dates)"
      using main_appended [OF Inr, of False lf t0] a by simp
    have ne: "[] \<notin> set all_dates" using get_all_dates_sorted [OF Inr] by simp
    show ?thesis
    proof (clarify)
      fix d st
      assume "(d, st) \<in> set (appended (main False w lf t0))"
      then have d: "d \<in> set (dates_to_collect (get_last_collected_date (Some c)) all_dates)"
        unfolding app by (rule new_rows_days)
      from a ne d have "last (ledger_days c) < d"
        by (intro dates_to_collect_after_last) simp_all
      with a d dates_to_collect_subset Inr
      show "D < d \<and> (\<exists>ds. get_all_dates w = Inr ds \<and> d \<in> set ds)" by blast
    qed
  qed
next
  assume a: "(lf = None \<or> lf = Some c \<and> ledger_days c = []) \<and> get_all_dates w = Inr ds"
  then have "get_last_collected_date lf = None"
    using last_collected_cases [of c] by (auto simp add: get_last_collected_date_None)
  with a have app: "appended (main False w lf t0) = new_rows w ds"
    using main_appended [of w ds False lf t0] by (simp add: dates_to_collect_None)
  show "map fst (appended (main False w lf t0))
        = filter (\<lambda>d. day_row w d \<noteq> None) (reached w ds)"
    by (simp add: app map_fst_new_rows)
  show "map fst (appended (main False w lf t0)) = ds" if "\<forall>d \<in> set ds. day_row w d \<noteq> None"
    using that by (simp add: app map_fst_new_rows day_row_reached)
qed

theorem resume_after_last_collected_day_witness:
  "ledger_days demo_ledger = [''2024-01-01''] \<and>
   appended (main False demo_world (Some demo_ledger) {}) \<noteq> [] \<and>
   list_all (\<lambda>(d, st). ''2024-01-01'' < d \<and> (\<exists>ds. get_all_dates demo_world = Inr ds \<and> d \<in> set ds))
     (appended (main False demo_world (Some demo_ledger) {})) \<and>
   ledger_days (writerow header) = [] \<and>
   get_all_dates demo_world = Inr [''2024-01-01'', ''2024-01-02''] \<and>
   list_all (\<lambda>d. day_row demo_world d \<noteq> None) [''2024-01-01'', ''2024-01-02''] \<and>
   map fst (appended (main False demo_world (Some (writerow header)) {}))
     = [''2024-01-01'', ''2024-01-02''] \<and>
   map fst (appended (main False demo_world None {})) = [''2024-01-01'', ''2024-01-02'']"
proof -
  note t = resume_after_last_collected_day
  have 1: "ledger_days demo_ledger = [''2024-01-01'']" by code_simp
  have 2: "appended (main False demo_world (Some demo_ledger) {}) \<noteq> []" by code_simp
  have 3: "ledger_days (writerow header) = []" by code_simp
  have 4: "get_all_dates demo_world = Inr [''2024-01-01'', ''2024-01-02'']" by code_simp
  have 5: "\<forall>d \<in> set [''2024-01-01'', ''2024-01-02'']. day_row demo_world d \<noteq> None" by code_simp
  from t [of "Some demo_ledger" demo_ledger "''2024-01-01''" demo_world "{}"] 1
  have 6: "\<forall>(d, st) \<in> set (appended (main False demo_world (Some demo_ledger) {})).
      ''2024-01-01'' < d \<and> (\<exists>ds. get_all_dates demo_world = Inr ds \<and> d \<in> set ds)"
    by simp
  from t [of "Some (writerow header)" "writerow header" _ demo_world "{}"
      "[''2024-01-01'', ''2024-01-02'']"] 3 4 5
  have 7: "map fst (appended (main False demo_world (Some (writerow header)) {}))
     = [''2024-01-01'', ''2024-01-02'']"
    by blast
  from t [of None _ _ demo_world "{}" "[''2024-01-01'', ''2024-01-02'']"] 4 5
  have 8: "map fst (appended (main False demo_world None {})) = [''2024-01-01'', ''2024-01-02'']"
    by blast
  from 1 2 3 4 5 6 7 8 show ?thesis unfolding list_all_iff by blast
qed

end
